theory Spec2Isabelle
  imports
    Main
    "HOL-Library.AList"
    "HOL-Library.Multiset"
    "HOL-Library.Char_ord"
    "HOL-Library.List_Lexorder"
    "HOL-Library.Product_Lexorder"
begin

section \<open>The crossword generator of 3-optimization/crossword/generate.py\<close>

text \<open>
  The class \<open>CrosswordCreator\<close> keeps one mutable attribute, \<open>self.domains\<close>, a dict
  from variables to sets of words, and works on a dict \<open>assignment\<close> that \<open>backtrack\<close>
  mutates in place. Both are association lists here: Python dicts keep insertion order,
  an assignment to an existing key keeps its place (\<open>AList.update\<close>), \<open>del\<close> removes the
  entry (\<open>AList.delete\<close>). A Python \<open>set\<close> of words is a list in the order in which the
  set is iterated. Every method that touches \<open>self.domains\<close> takes the dict and returns
  it, together with what the method returns or the exception it raises: an exception
  leaves the mutations made so far in place, so the state is returned in that case too.
  The source compares variables with \<open>is\<close>. Every variable object it handles comes from
  the one set \<open>crossword.variables\<close>, where equal variables are the same object, so \<open>is\<close>
  is equality here.
\<close>

subsection \<open>Exceptions and the primitive operations that raise them\<close>

datatype error = KeyError | IndexError | ValueError | RecursionError

text \<open>\<open>d[k]\<close> on a dict.\<close>

definition getitem :: "('k \<times> 'v) list \<Rightarrow> 'k \<Rightarrow> error + 'v" where
  "getitem d k = (case map_of d k of None \<Rightarrow> Inl KeyError | Some v \<Rightarrow> Inr v)"

text \<open>\<open>del d[k]\<close> on a dict: a missing key raises \<open>KeyError\<close>.\<close>

definition delitem :: "('k \<times> 'v) list \<Rightarrow> 'k \<Rightarrow> error + ('k \<times> 'v) list" where
  "delitem d k = (case map_of d k of None \<Rightarrow> Inl KeyError | Some v \<Rightarrow> Inr (AList.delete k d))"

text \<open>\<open>s.add(x)\<close> on a set.\<close>

definition set_add :: "'a list \<Rightarrow> 'a \<Rightarrow> 'a list" where
  "set_add s x = (if x \<in> set s then s else s @ [x])"

text \<open>\<open>min(xs)\<close> and \<open>max(xs)\<close> on a list: the empty list raises \<open>ValueError\<close>.\<close>

definition py_min :: "nat list \<Rightarrow> error + nat" where
  "py_min xs = (case xs of [] \<Rightarrow> Inl ValueError | x # rest \<Rightarrow> Inr (fold min rest x))"

definition py_max :: "nat list \<Rightarrow> error + nat" where
  "py_max xs = (case xs of [] \<Rightarrow> Inl ValueError | x # rest \<Rightarrow> Inr (fold max rest x))"

text \<open>
  \<open>sorted(xs, reverse=True)\<close>: a stable sort into descending order, which CPython does
  by reversing, sorting stably into ascending order and reversing again. Tuples are
  compared lexicographically and strings by code point, as the orders of
  \<open>Product_Lexorder\<close>, \<open>List_Lexorder\<close> and \<open>Char_ord\<close> do.
\<close>

definition sorted_reverse :: "('a::linorder) list \<Rightarrow> 'a list" where
  "sorted_reverse xs = rev (sort (rev xs))"

subsection \<open>The structural model\<close>

text \<open>
  Modelled from the spec: the classes \<open>Variable\<close> and \<open>Crossword\<close> of the module
  \<open>crossword\<close>, which \<open>generate.py\<close> imports, are not part of the sources. A variable is
  its starting cell, its orientation and its length, and two variables are equal when
  these four agree. A crossword supplies the variables (a set, here in iteration order),
  the vocabulary (a set of words) and the overlap table: a dict whose keys are pairs of
  variables and whose values are \<open>None\<close> (no overlap) or a pair of indices. A pair that is
  not a key raises \<open>KeyError\<close>. A word is a \<open>string\<close>, one \<open>char\<close> for each character of the
  Python \<open>str\<close>; the indices of the table are never negative, so a subscript raises
  \<open>IndexError\<close> exactly when the index is not below the length of the word.
\<close>

datatype direction = ACROSS | DOWN

record variable =
  var_i :: nat
  var_j :: nat
  var_direction :: direction
  var_length :: nat

record crossword =
  variables :: "variable list"
  words :: "string list"
  overlaps :: "variable \<times> variable \<Rightarrow> (nat \<times> nat) option option"

text \<open>
  Modelled from the spec: \<open>Crossword.neighbors(var)\<close>, the variables with a defined
  overlap with \<open>var\<close>.
\<close>

definition has_overlap :: "crossword \<Rightarrow> variable \<Rightarrow> variable \<Rightarrow> bool" where
  "has_overlap cw v var = (case overlaps cw (v, var) of Some (Some ij) \<Rightarrow> True | _ \<Rightarrow> False)"

definition neighbors :: "crossword \<Rightarrow> variable \<Rightarrow> variable list" where
  "neighbors cw var = [v \<leftarrow> variables cw. v \<noteq> var \<and> has_overlap cw v var]"

type_synonym domains = "(variable \<times> string list) list"
type_synonym assignment = "(variable \<times> string) list"
type_synonym arc = "variable \<times> variable"

subsection \<open>\<open>__init__\<close> and \<open>enforce_node_consistency\<close>\<close>

definition init_domains :: "crossword \<Rightarrow> domains" where
  "init_domains cw = map (\<lambda>var. (var, words cw)) (variables cw)"

fun enforce_loop :: "variable list \<Rightarrow> domains \<Rightarrow> (error + unit) \<times> domains" where
  "enforce_loop [] D = (Inr (), D)"
| "enforce_loop (var # vars) D =
     (case getitem D var of
        Inl e \<Rightarrow> (Inl e, D)
      | Inr ws \<Rightarrow>
          enforce_loop vars
            (AList.update var (remdups [v \<leftarrow> ws. var_length var = length v]) D))"

definition enforce_node_consistency :: "crossword \<Rightarrow> domains \<Rightarrow> (error + unit) \<times> domains" where
  "enforce_node_consistency cw D = enforce_loop (variables cw) D"

subsection \<open>\<open>revise\<close>\<close>

text \<open>
  \<open>any(x_value[x_index] == y_value[y_index] for y_value in self.domains[y])\<close>: the
  generator stops at the first \<open>y_value\<close> that agrees, and each comparison subscripts
  \<open>x_value\<close> first and \<open>y_value\<close> second.
\<close>

fun any_agree :: "string \<Rightarrow> nat \<Rightarrow> nat \<Rightarrow> string list \<Rightarrow> error + bool" where
  "any_agree x_value x_index y_index [] = Inr False"
| "any_agree x_value x_index y_index (y_value # ys) =
     (if length x_value \<le> x_index \<or> length y_value \<le> y_index then Inl IndexError
      else if x_value ! x_index = y_value ! y_index then Inr True
      else any_agree x_value x_index y_index ys)"

text \<open>The \<open>for x_value in self.domains[x]\<close> loop, with \<open>tmp_domain\<close> and \<open>res\<close> as accumulators.\<close>

fun revise_loop ::
  "domains \<Rightarrow> variable \<Rightarrow> nat \<Rightarrow> nat \<Rightarrow> string list \<Rightarrow> string list \<Rightarrow> bool
     \<Rightarrow> error + (string list \<times> bool)" where
  "revise_loop D y x_index y_index [] tmp_domain res = Inr (tmp_domain, res)"
| "revise_loop D y x_index y_index (x_value # xs) tmp_domain res =
     (case getitem D y of
        Inl e \<Rightarrow> Inl e
      | Inr dy \<Rightarrow>
          (case any_agree x_value x_index y_index dy of
             Inl e \<Rightarrow> Inl e
           | Inr True \<Rightarrow> revise_loop D y x_index y_index xs (set_add tmp_domain x_value) res
           | Inr False \<Rightarrow> revise_loop D y x_index y_index xs tmp_domain True))"

definition revise :: "crossword \<Rightarrow> variable \<Rightarrow> variable \<Rightarrow> domains \<Rightarrow> (error + bool) \<times> domains" where
  "revise cw x y D =
     (case overlaps cw (x, y) of
        None \<Rightarrow> (Inl KeyError, D)
      | Some None \<Rightarrow> (Inr False, D)
      | Some (Some (x_index, y_index)) \<Rightarrow>
          (case getitem D x of
             Inl e \<Rightarrow> (Inl e, D)
           | Inr dx \<Rightarrow>
               (case revise_loop D y x_index y_index dx [] False of
                  Inl e \<Rightarrow> (Inl e, D)
                | Inr (tmp_domain, res) \<Rightarrow> (Inr res, AList.update x tmp_domain D))))"

subsection \<open>\<open>ac3\<close>\<close>

definition all_arcs :: "crossword \<Rightarrow> arc list" where
  "all_arcs cw = concat (map (\<lambda>x. map (\<lambda>y. (x, y)) [y \<leftarrow> variables cw. x \<noteq> y]) (variables cw))"

text \<open>The \<open>for neighbor in self.crossword.neighbors(x)\<close> loop that appends to \<open>arcs\<close>.\<close>

fun enqueue :: "variable list \<Rightarrow> variable \<Rightarrow> variable \<Rightarrow> arc list \<Rightarrow> arc list" where
  "enqueue [] x y arcs = arcs"
| "enqueue (neighbor # ns) x y arcs =
     enqueue ns x y
       (if neighbor \<noteq> y \<and> (neighbor, x) \<notin> set arcs then arcs @ [(neighbor, x)] else arcs)"

definition doms_size :: "domains \<Rightarrow> nat" where
  "doms_size D = sum_list (map (\<lambda>p. length (snd p)) D)"

function ac3_loop :: "crossword \<Rightarrow> arc list \<Rightarrow> domains \<Rightarrow> (error + bool) \<times> domains" where
  "ac3_loop cw [] D = (Inr True, D)"
| "ac3_loop cw ((x, y) # arcs) D =
     (case revise cw x y D of
        (Inl e, D') \<Rightarrow> (Inl e, D')
      | (Inr False, D') \<Rightarrow> ac3_loop cw arcs D'
      | (Inr True, D') \<Rightarrow>
          (case getitem D' x of
             Inl e \<Rightarrow> (Inl e, D')
           | Inr dx \<Rightarrow>
               if length dx = 0 then (Inr False, D')
               else ac3_loop cw (enqueue (neighbors cw x) x y arcs) D'))"
  by pat_completeness auto

definition ac3 :: "crossword \<Rightarrow> arc list option \<Rightarrow> domains \<Rightarrow> (error + bool) \<times> domains" where
  "ac3 cw arcs D = ac3_loop cw (case arcs of None \<Rightarrow> all_arcs cw | Some as \<Rightarrow> as) D"

subsection \<open>\<open>assignment_complete\<close> and \<open>consistent\<close>\<close>

definition assignment_complete :: "crossword \<Rightarrow> assignment \<Rightarrow> bool" where
  "assignment_complete cw A = list_all (\<lambda>var. var \<in> set (map fst A)) (variables cw)"

text \<open>
  The two nested loops of \<open>consistent\<close>. Each returns \<open>Inr False\<close> where the source
  executes \<open>return False\<close> and \<open>Inr True\<close> where the loop runs to its end.
\<close>

fun consistent_inner :: "crossword \<Rightarrow> assignment \<Rightarrow> variable \<Rightarrow> variable list \<Rightarrow> error + bool" where
  "consistent_inner cw A x [] = Inr True"
| "consistent_inner cw A x (y # ys) =
     (if x \<noteq> y then
        (case overlaps cw (x, y) of
           None \<Rightarrow> Inl KeyError
         | Some None \<Rightarrow> consistent_inner cw A x ys
         | Some (Some (x_index, y_index)) \<Rightarrow>
             (case getitem A x of
                Inl e \<Rightarrow> Inl e
              | Inr wx \<Rightarrow>
                  if length wx \<le> x_index then Inl IndexError
                  else
                    (case getitem A y of
                       Inl e \<Rightarrow> Inl e
                     | Inr wy \<Rightarrow>
                         if length wy \<le> y_index then Inl IndexError
                         else if wx ! x_index \<noteq> wy ! y_index then Inr False
                         else consistent_inner cw A x ys)))
      else consistent_inner cw A x ys)"

fun consistent_outer :: "crossword \<Rightarrow> assignment \<Rightarrow> variable list \<Rightarrow> error + bool" where
  "consistent_outer cw A [] = Inr True"
| "consistent_outer cw A (x # xs) =
     (case getitem A x of
        Inl e \<Rightarrow> Inl e
      | Inr wx \<Rightarrow>
          if var_length x \<noteq> length wx then Inr False
          else
            (case consistent_inner cw A x (map fst A) of
               Inl e \<Rightarrow> Inl e
             | Inr False \<Rightarrow> Inr False
             | Inr True \<Rightarrow> consistent_outer cw A xs))"

definition consistent :: "crossword \<Rightarrow> assignment \<Rightarrow> error + bool" where
  "consistent cw A =
     (if length A \<noteq> length (remdups (map snd A)) then Inr False
      else consistent_outer cw A (map fst A))"

subsection \<open>\<open>order_domain_values\<close>\<close>

text \<open>The \<open>for neighbor_value in self.domains[neighbor] - {value}\<close> loop; \<open>c\<close> is \<open>ruled_out_values\<close>.\<close>

fun count_disagree ::
  "crossword \<Rightarrow> variable \<Rightarrow> variable \<Rightarrow> string \<Rightarrow> string list \<Rightarrow> nat \<Rightarrow> error + nat" where
  "count_disagree cw var neighbor v [] c = Inr c"
| "count_disagree cw var neighbor v (neighbor_value # nvs) c =
     (case overlaps cw (var, neighbor) of
        None \<Rightarrow> Inl KeyError
      | Some None \<Rightarrow> count_disagree cw var neighbor v nvs c
      | Some (Some (index, neighbor_index)) \<Rightarrow>
          if length v \<le> index \<or> length neighbor_value \<le> neighbor_index then Inl IndexError
          else count_disagree cw var neighbor v nvs
                 (if v ! index \<noteq> neighbor_value ! neighbor_index then c + 1 else c))"

text \<open>The \<open>for neighbor in self.crossword.neighbors(var) - set(assignment.keys())\<close> loop.\<close>

fun count_ruled_out ::
  "crossword \<Rightarrow> domains \<Rightarrow> variable \<Rightarrow> string \<Rightarrow> variable list \<Rightarrow> nat \<Rightarrow> error + nat" where
  "count_ruled_out cw D var v [] c = Inr c"
| "count_ruled_out cw D var v (neighbor # ns) c =
     (case getitem D neighbor of
        Inl e \<Rightarrow> Inl e
      | Inr dn \<Rightarrow>
          (case count_disagree cw var neighbor v (removeAll v dn)
                  (if v \<in> set dn then c + 1 else c) of
             Inl e \<Rightarrow> Inl e
           | Inr c' \<Rightarrow> count_ruled_out cw D var v ns c'))"

text \<open>The \<open>for value in domains\<close> loop, which builds \<open>ruled_out_values_counters\<close>.\<close>

fun ruled_out_values_counters ::
  "crossword \<Rightarrow> domains \<Rightarrow> assignment \<Rightarrow> variable \<Rightarrow> string list \<Rightarrow> error + nat list" where
  "ruled_out_values_counters cw D A var [] = Inr []"
| "ruled_out_values_counters cw D A var (v # vs) =
     (case count_ruled_out cw D var v [n \<leftarrow> neighbors cw var. n \<notin> set (map fst A)] 0 of
        Inl e \<Rightarrow> Inl e
      | Inr c \<Rightarrow>
          (case ruled_out_values_counters cw D A var vs of
             Inl e \<Rightarrow> Inl e
           | Inr cs \<Rightarrow> Inr (c # cs)))"

definition order_domain_values ::
  "crossword \<Rightarrow> variable \<Rightarrow> assignment \<Rightarrow> domains \<Rightarrow> error + string list" where
  "order_domain_values cw var A D =
     (case getitem D var of
        Inl e \<Rightarrow> Inl e
      | Inr ds \<Rightarrow>
          (case ruled_out_values_counters cw D A var ds of
             Inl e \<Rightarrow> Inl e
           | Inr cs \<Rightarrow> Inr (map snd (sorted_reverse (zip cs ds)))))"

subsection \<open>\<open>select_unassigned_variable\<close>\<close>

text \<open>\<open>[len(self.domains[var]) for var in unassigned_variables]\<close>.\<close>

fun domain_sizes :: "domains \<Rightarrow> variable list \<Rightarrow> error + nat list" where
  "domain_sizes D [] = Inr []"
| "domain_sizes D (var # vars) =
     (case getitem D var of
        Inl e \<Rightarrow> Inl e
      | Inr ws \<Rightarrow>
          (case domain_sizes D vars of
             Inl e \<Rightarrow> Inl e
           | Inr ns \<Rightarrow> Inr (length ws # ns)))"

definition select_unassigned_variable ::
  "crossword \<Rightarrow> assignment \<Rightarrow> domains \<Rightarrow> error + variable" where
  "select_unassigned_variable cw A D =
     (let unassigned_variables = [v \<leftarrow> variables cw. v \<notin> set (map fst A)] in
      case domain_sizes D unassigned_variables of
        Inl e \<Rightarrow> Inl e
      | Inr sizes \<Rightarrow>
          (case py_min sizes of
             Inl e \<Rightarrow> Inl e
           | Inr min_values \<Rightarrow>
               (let selected_variables =
                      map fst [p \<leftarrow> zip unassigned_variables sizes. snd p = min_values] in
                case
                  (if length selected_variables \<noteq> 1 then
                     (case py_max (map (\<lambda>var. length (neighbors cw var)) selected_variables) of
                        Inl e \<Rightarrow> Inl e
                      | Inr max_neighbors \<Rightarrow>
                          Inr [var \<leftarrow> selected_variables.
                                 length (neighbors cw var) = max_neighbors])
                   else Inr selected_variables)
                of
                  Inl e \<Rightarrow> Inl e
                | Inr [] \<Rightarrow> Inl IndexError
                | Inr (var # rest) \<Rightarrow> Inr var)))"

subsection \<open>\<open>backtrack\<close> and \<open>solve\<close>\<close>

text \<open>
  \<open>backtrack\<close> calls itself once per bound variable. The first argument is the number of
  nested calls the interpreter still allows; at zero Python raises \<open>RecursionError\<close>.
  \<open>try_values\<close> is the \<open>for value in ...\<close> loop: it yields \<open>Inr (Some res)\<close> where the source
  executes \<open>return res\<close> and \<open>Inr None\<close> where the loop runs to its end, and \<open>backtrack\<close>
  then executes \<open>del assignment[var]\<close> and returns \<open>None\<close>. The result of \<open>self.ac3(arcs)\<close>
  is dropped, as in the source. \<open>tmp_domains\<close> is the deep copy of \<open>self.domains\<close>.
\<close>

type_synonym search_result = "(error + assignment option) \<times> assignment \<times> domains"

definition assigned_arcs :: "crossword \<Rightarrow> assignment \<Rightarrow> arc list" where
  "assigned_arcs cw A =
     concat (map (\<lambda>assigned_var. map (\<lambda>neighbor. (neighbor, assigned_var))
                                     (neighbors cw assigned_var)) (map fst A))"

fun backtrack :: "nat \<Rightarrow> crossword \<Rightarrow> assignment \<Rightarrow> domains \<Rightarrow> search_result"
and try_values ::
  "nat \<Rightarrow> crossword \<Rightarrow> variable \<Rightarrow> string list \<Rightarrow> assignment \<Rightarrow> domains \<Rightarrow> search_result"
where
  "backtrack 0 cw A D = (Inl RecursionError, A, D)"
| "backtrack (Suc n) cw A D =
     (if assignment_complete cw A then (Inr (Some A), A, D)
      else
        (case select_unassigned_variable cw A D of
           Inl e \<Rightarrow> (Inl e, A, D)
         | Inr var \<Rightarrow>
             (case order_domain_values cw var A D of
                Inl e \<Rightarrow> (Inl e, A, D)
              | Inr vals \<Rightarrow>
                  (case try_values n cw var vals A D of
                     (Inr None, A', D') \<Rightarrow>
                       (case delitem A' var of
                          Inl e \<Rightarrow> (Inl e, A', D')
                        | Inr A'' \<Rightarrow> (Inr None, A'', D'))
                   | r \<Rightarrow> r))))"
| "try_values n cw var [] A D = (Inr None, A, D)"
| "try_values n cw var (v # vals) A D =
     (let A1 = AList.update var v A in
      case consistent cw A1 of
        Inl e \<Rightarrow> (Inl e, A1, D)
      | Inr False \<Rightarrow> try_values n cw var vals A1 D
      | Inr True \<Rightarrow>
          (let tmp_domains = D;
               D1 = AList.update var [v] D
           in case ac3 cw (Some (assigned_arcs cw A1)) D1 of
                (Inl e, D2) \<Rightarrow> (Inl e, A1, D2)
              | (Inr b, D2) \<Rightarrow>
                  (case backtrack n cw A1 D2 of
                     (Inr None, A2, D3) \<Rightarrow> try_values n cw var vals A2 tmp_domains
                   | r \<Rightarrow> r)))"

definition solve :: "nat \<Rightarrow> crossword \<Rightarrow> domains \<Rightarrow> search_result" where
  "solve n cw D =
     (case enforce_node_consistency cw D of
        (Inl e, D1) \<Rightarrow> (Inl e, [], D1)
      | (Inr u, D1) \<Rightarrow>
          (case ac3 cw None D1 of
             (Inl e, D2) \<Rightarrow> (Inl e, [], D2)
           | (Inr b, D2) \<Rightarrow> backtrack n cw [] D2))"

section \<open>Predicates of the specification\<close>

text \<open>
  \<open>domains_le D' D\<close>: the dict \<open>D'\<close> has the keys of \<open>D\<close>, in the same order, and each
  variable's set of words in \<open>D'\<close> is a subset of its set in \<open>D\<close>.
\<close>

definition domains_le :: "domains \<Rightarrow> domains \<Rightarrow> bool" where
  "domains_le D' D = list_all2 (\<lambda>p' p. fst p' = fst p \<and> set (snd p') \<subseteq> set (snd p)) D' D"


text \<open>
  \<open>dom_of D v\<close> is the set of words of \<open>v\<close> in \<open>D\<close> (empty when \<open>v\<close> is not a key). Two
  words \<open>agree\<close> at a pair of indices when both indices are in range and the letters
  are equal. \<open>arc_consistent cw D x y\<close>: where the table records an overlap for \<open>(x, y)\<close>,
  every word of \<open>x\<close> has a word of \<open>y\<close> that agrees with it at the overlap indices.
  \<open>arcs_consistent\<close> asks this of every ordered pair of distinct variables.
\<close>

definition dom_of :: "domains \<Rightarrow> variable \<Rightarrow> string list" where
  "dom_of D v = (case map_of D v of None \<Rightarrow> [] | Some ws \<Rightarrow> ws)"

definition agree :: "string \<Rightarrow> nat \<Rightarrow> string \<Rightarrow> nat \<Rightarrow> bool" where
  "agree xv i yv j = (i < length xv \<and> j < length yv \<and> xv ! i = yv ! j)"

definition arc_consistent :: "crossword \<Rightarrow> domains \<Rightarrow> variable \<Rightarrow> variable \<Rightarrow> bool" where
  "arc_consistent cw D x y =
     (case overlaps cw (x, y) of
        Some (Some (i, j)) \<Rightarrow>
          list_all (\<lambda>xv. list_ex (\<lambda>yv. agree xv i yv j) (dom_of D y)) (dom_of D x)
      | _ \<Rightarrow> True)"

definition arcs_consistent :: "crossword \<Rightarrow> domains \<Rightarrow> bool" where
  "arcs_consistent cw D =
     list_all (\<lambda>x. list_all (\<lambda>y. x = y \<or> arc_consistent cw D x y) (variables cw)) (variables cw)"

text \<open>
  Modelled from the spec: the overlap table is keyed by unordered pairs, so the entry
  for \<open>(y, x)\<close> is the entry for \<open>(x, y)\<close> with the two indices exchanged.
\<close>

definition symmetric_overlaps :: "crossword \<Rightarrow> bool" where
  "symmetric_overlaps cw =
     list_all (\<lambda>x. list_all (\<lambda>y.
        overlaps cw (y, x) = map_option (map_option prod.swap) (overlaps cw (x, y)))
          (variables cw)) (variables cw)"

text \<open>
  \<open>assignment_valid cw A\<close>: two different variables are bound to different words, the
  word of each variable has the variable's length, and where the table records an
  overlap for two bound variables their words agree at the overlap indices.
\<close>

definition assignment_valid :: "crossword \<Rightarrow> assignment \<Rightarrow> bool" where
  "assignment_valid cw A =
     ((\<forall>x y wx wy. x \<noteq> y \<and> map_of A x = Some wx \<and> map_of A y = Some wy \<longrightarrow> wx \<noteq> wy) \<and>
      (\<forall>x wx. map_of A x = Some wx \<longrightarrow> length wx = var_length x) \<and>
      (\<forall>x y wx wy i j.
         x \<noteq> y \<and> map_of A x = Some wx \<and> map_of A y = Some wy \<and>
         overlaps cw (x, y) = Some (Some (i, j)) \<longrightarrow> agree wx i wy j))"

text \<open>
  The invariant of the loop of \<open>ac3\<close>: an arc between two distinct variables of the
  crossword is still in the worklist or already consistent.
\<close>

definition pending_or_consistent :: "crossword \<Rightarrow> arc list \<Rightarrow> domains \<Rightarrow> bool" where
  "pending_or_consistent cw arcs D =
     (\<forall>x \<in> set (variables cw). \<forall>y \<in> set (variables cw).
        x \<noteq> y \<longrightarrow> (x, y) \<in> set arcs \<or> arc_consistent cw D x y)"

section \<open>Example crosswords\<close>

text \<open>\<open>Variable(i, j, direction, length)\<close>.\<close>

definition Variable :: "nat \<Rightarrow> nat \<Rightarrow> direction \<Rightarrow> nat \<Rightarrow> variable" where
  "Variable a b d l = \<lparr>var_i = a, var_j = b, var_direction = d, var_length = l\<rparr>"

text \<open>
  The overlap table of a crossword with the variables \<open>vs\<close>: every pair of distinct
  variables is a key, with the listed index pair or \<open>None\<close>.
\<close>

definition overlap_table ::
  "variable list \<Rightarrow> (arc \<times> (nat \<times> nat)) list \<Rightarrow> arc \<Rightarrow> (nat \<times> nat) option option" where
  "overlap_table vs tab =
     (\<lambda>(x, y). if x \<in> set vs \<and> y \<in> set vs \<and> x \<noteq> y then Some (map_of tab (x, y)) else None)"

text \<open>
  Two slots of length 3 that share a cell: the last letter of the across word is the
  first letter of the down word.
\<close>

definition slot_X :: variable where
  "slot_X = Variable 0 0 ACROSS 3"

definition slot_Y :: variable where
  "slot_Y = Variable 0 2 DOWN 3"

definition two_slots :: crossword where
  "two_slots =
     \<lparr>variables = [slot_X, slot_Y], words = [''cat'', ''tar'', ''art''],
      overlaps = overlap_table [slot_X, slot_Y]
        [((slot_X, slot_Y), (2, 0)), ((slot_Y, slot_X), (0, 2))]\<rparr>"

text \<open>Two across slots of length 3 in different rows, and a single word.\<close>

definition slot_Z :: variable where
  "slot_Z = Variable 2 0 ACROSS 3"

definition parallel_slots :: crossword where
  "parallel_slots =
     \<lparr>variables = [slot_X, slot_Z], words = [''cat''],
      overlaps = overlap_table [slot_X, slot_Z] []\<rparr>"

text \<open>A single slot of length 3 and a vocabulary without a word of that length.\<close>

definition lonely_slot :: crossword where
  "lonely_slot = \<lparr>variables = [slot_X], words = [''ab''], overlaps = overlap_table [slot_X] []\<rparr>"

text \<open>
  Two slots of length 2 that share their first cell, and five words of length 2.
\<close>

definition slot_A :: variable where
  "slot_A = Variable 0 0 ACROSS 2"

definition slot_D :: variable where
  "slot_D = Variable 0 0 DOWN 2"

definition corner :: crossword where
  "corner =
     \<lparr>variables = [slot_A, slot_D], words = [''AB'', ''CD'', ''AX'', ''AY'', ''CZ''],
      overlaps = overlap_table [slot_A, slot_D]
        [((slot_A, slot_D), (0, 0)), ((slot_D, slot_A), (0, 0))]\<rparr>"

text \<open>
  A ring of four slots around a blocked cell, on the grid
  \<^verbatim>\<open>
  _ _ _ #
  _ # _ #
  _ _ _ _
  \<close>
  with the across slots \<open>ring_A1\<close> (row 0, length 3) and \<open>ring_A2\<close> (row 2, length 4) and
  the down slots \<open>ring_D1\<close> (column 0) and \<open>ring_D2\<close> (column 2), both of length 3.
  The vocabulary has the solution \<open>EZF\<close>, \<open>CZDZ\<close>, \<open>EZC\<close>, \<open>FZD\<close>.
\<close>

definition ring_A1 :: variable where
  "ring_A1 = Variable 0 0 ACROSS 3"

definition ring_A2 :: variable where
  "ring_A2 = Variable 2 0 ACROSS 4"

definition ring_D1 :: variable where
  "ring_D1 = Variable 0 0 DOWN 3"

definition ring_D2 :: variable where
  "ring_D2 = Variable 0 2 DOWN 3"

definition ring :: crossword where
  "ring =
     \<lparr>variables = [ring_A1, ring_A2, ring_D1, ring_D2],
      words = [''AZBZ'', ''CZDZ'', ''EZC'', ''EYC'', ''FZD'', ''FYD'', ''EZF'', ''GZA'', ''HZB'',
               ''GZF'', ''EZH''],
      overlaps = overlap_table [ring_A1, ring_A2, ring_D1, ring_D2]
        [((ring_A1, ring_D1), (0, 0)), ((ring_D1, ring_A1), (0, 0)),
         ((ring_A1, ring_D2), (2, 0)), ((ring_D2, ring_A1), (0, 2)),
         ((ring_A2, ring_D1), (0, 2)), ((ring_D1, ring_A2), (2, 0)),
         ((ring_A2, ring_D2), (2, 2)), ((ring_D2, ring_A2), (2, 2))]\<rparr>"

text \<open>The domains of \<open>ring\<close> when \<open>solve\<close> calls \<open>backtrack\<close>.\<close>

definition ring_domains :: domains where
  "ring_domains =
     [(ring_A1, [''EZF'', ''GZF'', ''EZH'']), (ring_A2, [''AZBZ'', ''CZDZ'']),
      (ring_D1, [''EZC'', ''EYC'', ''GZA'']), (ring_D2, [''FZD'', ''FYD'', ''HZB''])]"

text \<open>
  The two slots of \<open>corner\<close> with two words only: whichever word the first slot takes,
  propagation leaves the second slot the same word, which \<open>consistent\<close> rejects.
\<close>

definition tight_corner :: crossword where
  "tight_corner =
     \<lparr>variables = [slot_A, slot_D], words = [''AB'', ''CD''],
      overlaps = overlap_table [slot_A, slot_D]
        [((slot_A, slot_D), (0, 0)), ((slot_D, slot_A), (0, 0))]\<rparr>"

text \<open>The domains of \<open>ring\<close> after \<open>ring_A2\<close> is bound to \<open>AZBZ\<close> and \<open>ac3\<close> has run.\<close>

definition ring_failed_domains :: domains where
  "ring_failed_domains =
     [(ring_A1, []), (ring_A2, [''AZBZ'']), (ring_D1, [''GZA'']), (ring_D2, [''HZB''])]"

section \<open>Termination of the propagation loop\<close>

lemma getitem_Inr_iff: "getitem d k = Inr v \<longleftrightarrow> map_of d k = Some v"
  by (simp add: getitem_def split: option.splits)

lemma getitem_Inl_iff: "getitem d k = Inl e \<longleftrightarrow> map_of d k = None \<and> e = KeyError"
  by (auto simp: getitem_def split: option.splits)

lemma length_set_add: "length (set_add s x) \<le> Suc (length s)"
  by (simp add: set_add_def)

lemma revise_loop_length:
  "revise_loop D y xi yi xs tmp res = Inr (tmp', res') \<Longrightarrow>
     length tmp' \<le> length tmp + length xs \<and>
     (res' \<longrightarrow> res \<or> length tmp' < length tmp + length xs)"
proof (induction xs arbitrary: tmp res)
  case Nil
  then show ?case by simp
next
  case (Cons xv xs)
  from Cons.prems obtain dy b where dy: "getitem D y = Inr dy"
    and b: "any_agree xv xi yi dy = Inr b"
    by (auto split: sum.splits)
  show ?case
  proof (cases b)
    case True
    with Cons.prems dy b have "revise_loop D y xi yi xs (set_add tmp xv) res = Inr (tmp', res')"
      by simp
    from Cons.IH[OF this] length_set_add[of tmp xv] show ?thesis by auto
  next
    case False
    with Cons.prems dy b have "revise_loop D y xi yi xs tmp True = Inr (tmp', res')"
      by simp
    from Cons.IH[OF this] show ?thesis by auto
  qed
qed

lemma doms_size_update:
  "map_of D x = Some dx \<Longrightarrow> doms_size (AList.update x ws D) + length dx = doms_size D + length ws"
  by (induction D) (auto simp: doms_size_def)

lemma revise_size:
  assumes "revise cw x y D = (Inr b, D')"
  shows "doms_size D' \<le> doms_size D \<and> (b \<longrightarrow> doms_size D' < doms_size D)"
proof (cases "overlaps cw (x, y)")
  case None
  with assms show ?thesis by (simp add: revise_def)
next
  case (Some ov)
  show ?thesis
  proof (cases ov)
    case None
    with Some assms show ?thesis by (simp add: revise_def)
  next
    case (Some ij)
    obtain xi yi where ij: "ij = (xi, yi)" by (cases ij)
    from assms \<open>overlaps cw (x, y) = Some ov\<close> Some ij
    obtain dx tmp where dx: "map_of D x = Some dx"
      and loop: "revise_loop D y xi yi dx [] False = Inr (tmp, b)"
      and D': "D' = AList.update x tmp D"
      by (auto simp: revise_def getitem_Inr_iff split: sum.splits)
    from revise_loop_length[OF loop] doms_size_update[OF dx, of tmp] D'
    show ?thesis by auto
  qed
qed

termination ac3_loop
  apply (relation "inv_image (less_than <*lex*> less_than) (\<lambda>(cw, arcs, D). (doms_size D, length arcs))")
    apply (auto intro!: wf_inv_image dest!: revise_size[OF sym])
  done

section \<open>Frame and monotonicity of the domain store\<close>

lemma domains_le_refl: "domains_le D D"
  by (simp add: domains_le_def list_all2_refl)

lemma domains_le_trans: "domains_le D2 D1 \<Longrightarrow> domains_le D1 D0 \<Longrightarrow> domains_le D2 D0"
  unfolding domains_le_def
  using list_all2_trans[of "\<lambda>p' p. fst p' = fst p \<and> set (snd p') \<subseteq> set (snd p)"
      "\<lambda>p' p. fst p' = fst p \<and> set (snd p') \<subseteq> set (snd p)"
      "\<lambda>p' p. fst p' = fst p \<and> set (snd p') \<subseteq> set (snd p)" D2 D1 D0]
  by auto

lemma domains_le_update:
  "map_of D x = Some dx \<Longrightarrow> set ws \<subseteq> set dx \<Longrightarrow> domains_le (AList.update x ws D) D"
  unfolding domains_le_def
  by (induction D) (auto simp: list_all2_refl split: if_splits)

lemma domains_le_keys: "domains_le D' D \<Longrightarrow> map fst D' = map fst D"
  unfolding domains_le_def
  by (induction D' D rule: list_all2_induct) auto

lemma domains_le_map_of:
  "domains_le D' D \<Longrightarrow> map_of D' v = Some ws' \<Longrightarrow> \<exists>ws. map_of D v = Some ws \<and> set ws' \<subseteq> set ws"
  unfolding domains_le_def
  by (induction D' D rule: list_all2_induct) (auto split: if_splits)

lemma set_set_add: "set (set_add s x) = insert x (set s)"
  by (auto simp: set_add_def)

lemma revise_loop_set:
  "revise_loop D y xi yi xs tmp res = Inr (tmp', res') \<Longrightarrow> set tmp' \<subseteq> set tmp \<union> set xs"
proof (induction xs arbitrary: tmp res)
  case Nil
  then show ?case by simp
next
  case (Cons xv xs)
  from Cons.prems obtain dy b where dy: "getitem D y = Inr dy"
    and b: "any_agree xv xi yi dy = Inr b"
    by (auto split: sum.splits)
  show ?case
  proof (cases b)
    case True
    with Cons.prems dy b have "revise_loop D y xi yi xs (set_add tmp xv) res = Inr (tmp', res')"
      by simp
    from Cons.IH[OF this] show ?thesis by (auto simp: set_set_add)
  next
    case False
    with Cons.prems dy b have "revise_loop D y xi yi xs tmp True = Inr (tmp', res')"
      by simp
    from Cons.IH[OF this] show ?thesis by auto
  qed
qed

lemma revise_cases:
  assumes "revise cw x y D = (r, D')"
  obtains (unchanged) "D' = D"
  | (revised) xi yi dx tmp b where "overlaps cw (x, y) = Some (Some (xi, yi))"
      "map_of D x = Some dx" "revise_loop D y xi yi dx [] False = Inr (tmp, b)"
      "r = Inr b" "D' = AList.update x tmp D"
proof (cases "overlaps cw (x, y)")
  case None
  with assms have "D' = D" by (simp add: revise_def)
  then show ?thesis by (rule unchanged)
next
  case (Some ov)
  show ?thesis
  proof (cases ov)
    case None
    with Some assms have "D' = D" by (simp add: revise_def)
    then show ?thesis by (rule unchanged)
  next
    case ov: (Some ij)
    obtain xi yi where ij: "ij = (xi, yi)" by (cases ij)
    show ?thesis
    proof (cases "map_of D x")
      case None
      with Some ov ij assms have "D' = D" by (simp add: revise_def getitem_def)
      then show ?thesis by (rule unchanged)
    next
      case dx: (Some dx)
      show ?thesis
      proof (cases "revise_loop D y xi yi dx [] False")
        case (Inl e)
        with Some ov ij dx assms have "D' = D" by (simp add: revise_def getitem_def)
        then show ?thesis by (rule unchanged)
      next
        case (Inr p)
        obtain tmp b where p: "p = (tmp, b)" by (cases p)
        from Some ov ij dx Inr p assms have "r = Inr b" "D' = AList.update x tmp D"
          by (simp_all add: revise_def getitem_def)
        with Some ov ij dx Inr p show ?thesis by (intro revised) simp_all
      qed
    qed
  qed
qed

lemma revise_shrinks: "domains_le (snd (revise cw x y D)) D"
proof -
  obtain r D' where eq: "revise cw x y D = (r, D')" by (cases "revise cw x y D")
  from eq have "domains_le D' D"
  proof (cases rule: revise_cases)
    case unchanged
    then show ?thesis by (simp add: domains_le_refl)
  next
    case (revised xi yi dx tmp b)
    from revise_loop_set[OF revised(3)] have "set tmp \<subseteq> set dx" by simp
    with revised show ?thesis by (simp add: domains_le_update)
  qed
  with eq show ?thesis by simp
qed

lemma enforce_loop_shrinks: "domains_le (snd (enforce_loop vars D)) D"
proof (induction vars arbitrary: D)
  case Nil
  then show ?case by (simp add: domains_le_refl)
next
  case (Cons var vars)
  show ?case
  proof (cases "getitem D var")
    case (Inl e)
    then show ?thesis by (simp add: domains_le_refl)
  next
    case (Inr ws)
    then have "map_of D var = Some ws" by (simp add: getitem_Inr_iff)
    then have "domains_le (AList.update var (remdups [v \<leftarrow> ws. var_length var = length v]) D) D"
      by (rule domains_le_update) auto
    with Cons.IH Inr show ?thesis
      by (auto intro: domains_le_trans)
  qed
qed

lemma ac3_loop_error:
  "revise cw x y D = (Inl e, D') \<Longrightarrow> ac3_loop cw ((x, y) # arcs) D = (Inl e, D')"
  by simp

lemma ac3_loop_unrevised:
  "revise cw x y D = (Inr False, D') \<Longrightarrow> ac3_loop cw ((x, y) # arcs) D = ac3_loop cw arcs D'"
  by simp

lemma ac3_loop_keyerror:
  "revise cw x y D = (Inr True, D') \<Longrightarrow> getitem D' x = Inl e \<Longrightarrow>
     ac3_loop cw ((x, y) # arcs) D = (Inl e, D')"
  by simp

lemma ac3_loop_emptied:
  "revise cw x y D = (Inr True, D') \<Longrightarrow> getitem D' x = Inr [] \<Longrightarrow>
     ac3_loop cw ((x, y) # arcs) D = (Inr False, D')"
  by simp

lemma ac3_loop_revised:
  "revise cw x y D = (Inr True, D') \<Longrightarrow> getitem D' x = Inr dx \<Longrightarrow> dx \<noteq> [] \<Longrightarrow>
     ac3_loop cw ((x, y) # arcs) D = ac3_loop cw (enqueue (neighbors cw x) x y arcs) D'"
  by simp

lemma ac3_loop_induct [case_names Nil error unrevised keyerror emptied revised]:
  assumes Nil: "\<And>cw D. P cw [] D"
    and error: "\<And>cw x y arcs D e D'. revise cw x y D = (Inl e, D') \<Longrightarrow> P cw ((x, y) # arcs) D"
    and unrevised: "\<And>cw x y arcs D D'.
        revise cw x y D = (Inr False, D') \<Longrightarrow> P cw arcs D' \<Longrightarrow> P cw ((x, y) # arcs) D"
    and keyerror: "\<And>cw x y arcs D D' e.
        revise cw x y D = (Inr True, D') \<Longrightarrow> getitem D' x = Inl e \<Longrightarrow> P cw ((x, y) # arcs) D"
    and emptied: "\<And>cw x y arcs D D'.
        revise cw x y D = (Inr True, D') \<Longrightarrow> getitem D' x = Inr [] \<Longrightarrow> P cw ((x, y) # arcs) D"
    and revised: "\<And>cw x y arcs D D' dx.
        revise cw x y D = (Inr True, D') \<Longrightarrow> getitem D' x = Inr dx \<Longrightarrow> dx \<noteq> [] \<Longrightarrow>
        P cw (enqueue (neighbors cw x) x y arcs) D' \<Longrightarrow> P cw ((x, y) # arcs) D"
  shows "P cw arcs D"
proof (induction cw arcs D rule: ac3_loop.induct)
  case (1 cw D)
  show ?case by (rule Nil)
next
  case (2 cw x y arcs D)
  obtain r D' where eq: "revise cw x y D = (r, D')" by (cases "revise cw x y D")
  show ?case
  proof (cases r)
    case (Inl e)
    with eq show ?thesis by (auto intro: error)
  next
    case (Inr b)
    show ?thesis
    proof (cases b)
      case False
      then have bF: "b = False" by simp
      from "2.IH"(2)[OF eq[symmetric] Inr bF] eq Inr bF show ?thesis
        by (auto intro: unrevised)
    next
      case True
      then have bT: "b = True" by simp
      show ?thesis
      proof (cases "getitem D' x")
        case (Inl e)
        with eq Inr bT show ?thesis by (auto intro: keyerror)
      next
        case dx: (Inr dx)
        show ?thesis
        proof (cases "dx = []")
          case True
          with eq Inr bT dx show ?thesis by (auto intro: emptied)
        next
          case False
          then have "length dx \<noteq> 0" by simp
          from "2.IH"(1)[OF eq[symmetric] Inr bT dx this] eq Inr bT dx False show ?thesis
            by (auto intro: revised)
        qed
      qed
    qed
  qed
qed

lemma ac3_loop_shrinks: "domains_le (snd (ac3_loop cw arcs D)) D"
proof (induction cw arcs D rule: ac3_loop_induct)
  case (Nil cw D)
  show ?case by (simp add: domains_le_refl)
next
  case (error cw x y arcs D e D')
  with revise_shrinks[of cw x y D] show ?case by simp
next
  case (unrevised cw x y arcs D D')
  from unrevised(1) revise_shrinks[of cw x y D] have "domains_le D' D" by simp
  with unrevised(2) have "domains_le (snd (ac3_loop cw arcs D')) D"
    by (rule domains_le_trans)
  with unrevised(1) show ?case by simp
next
  case (keyerror cw x y arcs D D' e)
  with revise_shrinks[of cw x y D] show ?case by simp
next
  case (emptied cw x y arcs D D')
  with revise_shrinks[of cw x y D] show ?case by simp
next
  case (revised cw x y arcs D D' dx)
  from revised(1) revise_shrinks[of cw x y D] have "domains_le D' D" by simp
  with revised(4) have "domains_le (snd (ac3_loop cw (enqueue (neighbors cw x) x y arcs) D')) D"
    by (rule domains_le_trans)
  with revised(1,2,3) show ?case by simp
qed

section \<open>What \<open>revise\<close> computes\<close>

lemma dom_of_getitem: "getitem D v = Inr ws \<Longrightarrow> dom_of D v = ws"
  by (simp add: getitem_Inr_iff dom_of_def)

lemma dom_of_update: "dom_of (AList.update x ws D) v = (if v = x then ws else dom_of D v)"
  by (simp add: dom_of_def update_conv')

lemma any_agree_iff:
  "any_agree xv xi yi dy = Inr b \<Longrightarrow> b \<longleftrightarrow> (\<exists>yv \<in> set dy. agree xv xi yv yi)"
  by (induction dy) (auto simp: agree_def split: if_splits)

lemma revise_loop_res:
  "revise_loop D y xi yi xs tmp True = Inr (tmp', res') \<Longrightarrow> res'"
proof (induction xs arbitrary: tmp)
  case Nil
  then show ?case by simp
next
  case (Cons xv xs)
  from Cons.prems obtain dy b where dy: "getitem D y = Inr dy"
    and b: "any_agree xv xi yi dy = Inr b"
    by (auto split: sum.splits)
  show ?case
  proof (cases b)
    case True
    with Cons.prems dy b have "revise_loop D y xi yi xs (set_add tmp xv) True = Inr (tmp', res')"
      by simp
    then show ?thesis by (rule Cons.IH)
  next
    case False
    with Cons.prems dy b have "revise_loop D y xi yi xs tmp True = Inr (tmp', res')"
      by simp
    then show ?thesis by (rule Cons.IH)
  qed
qed

lemma revise_loop_spec:
  "revise_loop D y xi yi xs tmp res = Inr (tmp', res') \<Longrightarrow>
     set tmp' = set tmp \<union> {xv \<in> set xs. \<exists>yv \<in> set (dom_of D y). agree xv xi yv yi} \<and>
     (\<not> res' \<longrightarrow> set xs \<subseteq> set tmp')"
proof (induction xs arbitrary: tmp res)
  case Nil
  then show ?case by simp
next
  case (Cons xv xs)
  from Cons.prems obtain dy b where dy: "getitem D y = Inr dy"
    and b: "any_agree xv xi yi dy = Inr b"
    by (auto split: sum.splits)
  from dy have dom: "dom_of D y = dy" by (rule dom_of_getitem)
  from any_agree_iff[OF b] dom have b_iff: "b \<longleftrightarrow> (\<exists>yv \<in> set (dom_of D y). agree xv xi yv yi)"
    by simp
  show ?case
  proof (cases b)
    case True
    with Cons.prems dy b have "revise_loop D y xi yi xs (set_add tmp xv) res = Inr (tmp', res')"
      by simp
    from Cons.IH[OF this] True b_iff show ?thesis by (auto simp: set_set_add)
  next
    case False
    with Cons.prems dy b have loop: "revise_loop D y xi yi xs tmp True = Inr (tmp', res')"
      by simp
    from revise_loop_res[OF loop] have "res'" .
    with Cons.IH[OF loop] False b_iff show ?thesis by auto
  qed
qed

lemma revise_overlapD:
  assumes "revise cw x y D = (Inr b, D')" and "overlaps cw (x, y) = Some (Some (xi, yi))"
  shows "\<exists>dx tmp. map_of D x = Some dx \<and> revise_loop D y xi yi dx [] False = Inr (tmp, b) \<and>
           D' = AList.update x tmp D"
  using assms by (auto simp: revise_def getitem_def split: option.splits sum.splits)

lemma revise_spec:
  assumes "revise cw x y D = (Inr b, D')" and "overlaps cw (x, y) = Some (Some (xi, yi))"
  shows "set (dom_of D' x) = {xv \<in> set (dom_of D x). \<exists>yv \<in> set (dom_of D y). agree xv xi yv yi}"
    and "v \<noteq> x \<Longrightarrow> dom_of D' v = dom_of D v"
    and "\<not> b \<Longrightarrow> set (dom_of D' x) = set (dom_of D x)"
    and "\<exists>dx. getitem D' x = Inr dx"
proof -
  from assms obtain dx tmp where dx: "map_of D x = Some dx"
    and loop: "revise_loop D y xi yi dx [] False = Inr (tmp, b)"
    and D': "D' = AList.update x tmp D"
    using revise_overlapD by blast
  from dx have dom: "dom_of D x = dx" by (simp add: dom_of_def)
  from revise_loop_spec[OF loop] dom D'
  show "set (dom_of D' x) = {xv \<in> set (dom_of D x). \<exists>yv \<in> set (dom_of D y). agree xv xi yv yi}"
    by (simp add: dom_of_update)
  from D' show "v \<noteq> x \<Longrightarrow> dom_of D' v = dom_of D v"
    by (simp add: dom_of_update)
  from revise_loop_spec[OF loop] dom D' show "\<not> b \<Longrightarrow> set (dom_of D' x) = set (dom_of D x)"
    by (auto simp: dom_of_update)
  from D' show "\<exists>dx. getitem D' x = Inr dx"
    by (simp add: getitem_Inr_iff update_conv')
qed

lemma revise_no_overlap:
  "overlaps cw (x, y) = Some None \<Longrightarrow> revise cw x y D = (Inr False, D)"
  by (simp add: revise_def)

lemma revise_Inr_overlap:
  "revise cw x y D = (Inr b, D') \<Longrightarrow> \<exists>ov. overlaps cw (x, y) = Some ov"
  by (cases "overlaps cw (x, y)") (auto simp: revise_def)

section \<open>Arc consistency\<close>

lemma arc_consistent_iff:
  "arc_consistent cw D x y \<longleftrightarrow>
     (\<forall>i j. overlaps cw (x, y) = Some (Some (i, j)) \<longrightarrow>
        (\<forall>xv \<in> set (dom_of D x). \<exists>yv \<in> set (dom_of D y). agree xv i yv j))"
  by (auto simp: arc_consistent_def list_all_iff list_ex_iff split: option.splits)

lemma arc_consistentD:
  "arc_consistent cw D x y \<Longrightarrow> overlaps cw (x, y) = Some (Some (i, j)) \<Longrightarrow>
     xv \<in> set (dom_of D x) \<Longrightarrow> \<exists>yv \<in> set (dom_of D y). agree xv i yv j"
  by (simp add: arc_consistent_def list_all_iff list_ex_iff)

lemma arc_consistentI:
  assumes "\<And>i j xv. overlaps cw (x, y) = Some (Some (i, j)) \<Longrightarrow> xv \<in> set (dom_of D x) \<Longrightarrow>
     \<exists>yv \<in> set (dom_of D y). agree xv i yv j"
  shows "arc_consistent cw D x y"
  using assms by (simp add: arc_consistent_def list_all_iff list_ex_iff split: option.splits)

lemma arcs_consistent_iff:
  "arcs_consistent cw D \<longleftrightarrow>
     (\<forall>x \<in> set (variables cw). \<forall>y \<in> set (variables cw). x \<noteq> y \<longrightarrow> arc_consistent cw D x y)"
  by (auto simp: arcs_consistent_def list_all_iff)

lemma symmetric_overlapsD:
  "symmetric_overlaps cw \<Longrightarrow> x \<in> set (variables cw) \<Longrightarrow> y \<in> set (variables cw) \<Longrightarrow>
     overlaps cw (x, y) = Some (Some (i, j)) \<Longrightarrow> overlaps cw (y, x) = Some (Some (j, i))"
proof -
  assume sym: "symmetric_overlaps cw" and x: "x \<in> set (variables cw)"
    and y: "y \<in> set (variables cw)" and o: "overlaps cw (x, y) = Some (Some (i, j))"
  from sym x y have "overlaps cw (y, x) = map_option (map_option prod.swap) (overlaps cw (x, y))"
    unfolding symmetric_overlaps_def list_all_iff by blast
  also have "\<dots> = Some (Some (j, i))" by (simp add: o)
  finally show ?thesis .
qed

lemma agree_sym: "agree xv i yv j \<Longrightarrow> agree yv j xv i"
  by (simp add: agree_def)

lemma arc_consistent_mono:
  assumes cons: "arc_consistent cw D x y"
    and sub: "set (dom_of D' x) \<subseteq> set (dom_of D x)" and eq: "set (dom_of D' y) = set (dom_of D y)"
  shows "arc_consistent cw D' x y"
proof (rule arc_consistentI)
  fix i j xv
  assume o: "overlaps cw (x, y) = Some (Some (i, j))" and "xv \<in> set (dom_of D' x)"
  with sub have "xv \<in> set (dom_of D x)" by blast
  from arc_consistentD[OF cons o this] eq
  show "\<exists>yv \<in> set (dom_of D' y). agree xv i yv j" by simp
qed

lemma no_overlap_consistent: "\<not> has_overlap cw x y \<Longrightarrow> arc_consistent cw D x y"
  by (auto simp: has_overlap_def arc_consistent_def split: option.splits)

lemma neighbors_iff:
  "n \<in> set (neighbors cw x) \<longleftrightarrow> n \<in> set (variables cw) \<and> n \<noteq> x \<and> has_overlap cw n x"
  by (auto simp: neighbors_def)

lemma enqueue_set:
  "set (enqueue ns x y arcs) = set arcs \<union> {(n, x) | n. n \<in> set ns \<and> n \<noteq> y}"
  by (induction ns arbitrary: arcs) auto

lemma revise_sets:
  assumes "revise cw x y D = (Inr b, D')"
  shows "set (dom_of D' v) \<subseteq> set (dom_of D v)"
    and "v \<noteq> x \<Longrightarrow> dom_of D' v = dom_of D v"
    and "\<not> b \<Longrightarrow> set (dom_of D' v) = set (dom_of D v)"
proof -
  from revise_Inr_overlap[OF assms] obtain ov where ov: "overlaps cw (x, y) = Some ov" ..
  show "set (dom_of D' v) \<subseteq> set (dom_of D v)"
  proof (cases ov)
    case None
    with ov assms show ?thesis by (simp add: revise_def)
  next
    case (Some ij)
    obtain xi yi where "ij = (xi, yi)" by (cases ij)
    with ov Some have o: "overlaps cw (x, y) = Some (Some (xi, yi))" by simp
    from revise_spec(1,2)[OF assms o] show ?thesis by (cases "v = x") auto
  qed
  show "v \<noteq> x \<Longrightarrow> dom_of D' v = dom_of D v"
  proof (cases ov)
    case None
    with ov assms show ?thesis by (simp add: revise_def)
  next
    case (Some ij)
    obtain xi yi where "ij = (xi, yi)" by (cases ij)
    with ov Some have o: "overlaps cw (x, y) = Some (Some (xi, yi))" by simp
    assume "v \<noteq> x"
    with revise_spec(2)[OF assms o] show ?thesis by simp
  qed
  show "\<not> b \<Longrightarrow> set (dom_of D' v) = set (dom_of D v)"
  proof (cases ov)
    case None
    with ov assms show ?thesis by (simp add: revise_def)
  next
    case (Some ij)
    obtain xi yi where "ij = (xi, yi)" by (cases ij)
    with ov Some have o: "overlaps cw (x, y) = Some (Some (xi, yi))" by simp
    assume "\<not> b"
    with revise_spec(2,3)[OF assms o] show ?thesis by (cases "v = x") auto
  qed
qed

lemma revise_makes_consistent:
  assumes "revise cw x y D = (Inr b, D')" and "x \<noteq> y"
  shows "arc_consistent cw D' x y"
proof (rule arc_consistentI)
  fix i j xv
  assume o: "overlaps cw (x, y) = Some (Some (i, j))" and xv: "xv \<in> set (dom_of D' x)"
  from revise_spec(2)[OF assms(1) o, of y] assms(2) have dy: "dom_of D' y = dom_of D y" by simp
  from xv revise_spec(1)[OF assms(1) o]
  have "\<exists>yv \<in> set (dom_of D y). agree xv i yv j" by simp
  with dy show "\<exists>yv \<in> set (dom_of D' y). agree xv i yv j" by simp
qed

lemma revise_keeps_reverse:
  assumes rev: "revise cw x y D = (Inr b, D')" and "x \<noteq> y"
    and sym: "symmetric_overlaps cw" and x: "x \<in> set (variables cw)" and y: "y \<in> set (variables cw)"
    and cons: "arc_consistent cw D y x"
  shows "arc_consistent cw D' y x"
proof (rule arc_consistentI)
  fix j i yv
  assume o: "overlaps cw (y, x) = Some (Some (j, i))" and yv: "yv \<in> set (dom_of D' y)"
  from symmetric_overlapsD[OF sym y x o] have o': "overlaps cw (x, y) = Some (Some (i, j))" .
  from revise_spec(2)[OF rev o', of y] \<open>x \<noteq> y\<close> have dy: "dom_of D' y = dom_of D y" by simp
  with yv have "yv \<in> set (dom_of D y)" by simp
  from arc_consistentD[OF cons o this]
  obtain xv where xv: "xv \<in> set (dom_of D x)" and ag: "agree yv j xv i" ..
  from ag have ag': "agree xv i yv j" by (rule agree_sym)
  have "xv \<in> {xv \<in> set (dom_of D x). \<exists>yv \<in> set (dom_of D y). agree xv i yv j}"
    using xv \<open>yv \<in> set (dom_of D y)\<close> ag' by blast
  with revise_spec(1)[OF rev o'] have "xv \<in> set (dom_of D' x)" by simp
  with ag show "\<exists>xv \<in> set (dom_of D' x). agree yv j xv i" ..
qed

lemma pending_unrevised:
  assumes rev: "revise cw x y D = (Inr False, D1)"
    and inv: "pending_or_consistent cw ((x, y) # arcs) D"
  shows "pending_or_consistent cw arcs D1"
  unfolding pending_or_consistent_def
proof (intro ballI impI)
  fix u w
  assume u: "u \<in> set (variables cw)" and w: "w \<in> set (variables cw)" and ne: "u \<noteq> w"
  have same: "\<And>v. set (dom_of D1 v) = set (dom_of D v)"
    using revise_sets(3)[OF rev] by simp
  show "(u, w) \<in> set arcs \<or> arc_consistent cw D1 u w"
  proof (cases "(u, w) = (x, y)")
    case True
    with ne revise_makes_consistent[OF rev] show ?thesis by simp
  next
    case False
    with inv u w ne have "(u, w) \<in> set arcs \<or> arc_consistent cw D u w"
      unfolding pending_or_consistent_def by auto
    then show ?thesis
    proof
      assume "(u, w) \<in> set arcs"
      then show ?thesis ..
    next
      assume "arc_consistent cw D u w"
      then have "arc_consistent cw D1 u w"
        by (rule arc_consistent_mono) (simp_all add: same)
      then show ?thesis ..
    qed
  qed
qed

lemma pending_revised:
  assumes sym: "symmetric_overlaps cw"
    and rev: "revise cw x y D = (Inr b, D1)"
    and inv: "pending_or_consistent cw ((x, y) # arcs) D"
  shows "pending_or_consistent cw (enqueue (neighbors cw x) x y arcs) D1"
  unfolding pending_or_consistent_def
proof (intro ballI impI)
  fix u w
  assume u: "u \<in> set (variables cw)" and w: "w \<in> set (variables cw)" and ne: "u \<noteq> w"
  let ?arcs' = "enqueue (neighbors cw x) x y arcs"
  have sub: "\<And>v. set (dom_of D1 v) \<subseteq> set (dom_of D v)"
    using revise_sets(1)[OF rev] .
  have other: "\<And>v. v \<noteq> x \<Longrightarrow> dom_of D1 v = dom_of D v"
    using revise_sets(2)[OF rev] .
  have keep: "\<And>a. a \<in> set arcs \<Longrightarrow> a \<in> set ?arcs'"
    by (simp add: enqueue_set)
  from inv u w ne have old: "(u, w) = (x, y) \<or> (u, w) \<in> set arcs \<or> arc_consistent cw D u w"
    unfolding pending_or_consistent_def by auto
  show "(u, w) \<in> set ?arcs' \<or> arc_consistent cw D1 u w"
  proof (cases "(u, w) = (x, y)")
    case True
    with ne revise_makes_consistent[OF rev] show ?thesis by simp
  next
    case nxy: False
    show ?thesis
    proof (cases "(u, w) \<in> set arcs")
      case True
      then show ?thesis using keep by blast
    next
      case False
      with old nxy have cons: "arc_consistent cw D u w" by blast
      show ?thesis
      proof (cases "w = x")
        case wx: True
        show ?thesis
        proof (cases "u = y")
          case True
          with wx ne have "x \<noteq> y" by simp
          from revise_keeps_reverse[OF rev this sym] u w wx True cons
          show ?thesis by simp
        next
          case uy: False
          show ?thesis
          proof (cases "has_overlap cw u x")
            case True
            with u ne wx have "u \<in> set (neighbors cw x)" by (simp add: neighbors_iff)
            with uy wx have "(u, w) \<in> set ?arcs'" by (simp add: enqueue_set)
            then show ?thesis ..
          next
            case False
            with wx show ?thesis by (simp add: no_overlap_consistent)
          qed
        qed
      next
        case False
        then have "set (dom_of D1 w) = set (dom_of D w)" by (simp add: other)
        with cons sub[of u] have "arc_consistent cw D1 u w"
          by (rule arc_consistent_mono)
        then show ?thesis ..
      qed
    qed
  qed
qed

lemma pending_all_arcs: "pending_or_consistent cw (all_arcs cw) D"
  by (auto simp: pending_or_consistent_def all_arcs_def)

lemma ac3_loop_consistent:
  "symmetric_overlaps cw \<Longrightarrow> pending_or_consistent cw arcs D \<Longrightarrow>
     ac3_loop cw arcs D = (Inr True, D') \<Longrightarrow> arcs_consistent cw D'"
proof (induction cw arcs D rule: ac3_loop_induct)
  case (Nil cw D)
  then show ?case
    by (auto simp: arcs_consistent_iff pending_or_consistent_def)
next
  case (error cw x y arcs D e D1)
  then show ?case by simp
next
  case (unrevised cw x y arcs D D1)
  from unrevised.prems(3) unrevised.hyps have "ac3_loop cw arcs D1 = (Inr True, D')" by simp
  with unrevised.IH unrevised.prems(1) pending_unrevised[OF unrevised.hyps unrevised.prems(2)]
  show ?case by blast
next
  case (keyerror cw x y arcs D D1 e)
  then show ?case by simp
next
  case (emptied cw x y arcs D D1)
  then show ?case by simp
next
  case (revised cw x y arcs D D1 dx)
  from revised.prems(3) revised.hyps
  have "ac3_loop cw (enqueue (neighbors cw x) x y arcs) D1 = (Inr True, D')" by simp
  with revised.IH revised.prems(1)
    pending_revised[OF revised.prems(1) revised.hyps(1) revised.prems(2)]
  show ?case by blast
qed

lemma ac3_loop_keeps_nonempty:
  "fst (ac3_loop cw arcs D) \<noteq> Inr False \<Longrightarrow> dom_of D v \<noteq> [] \<Longrightarrow>
     dom_of (snd (ac3_loop cw arcs D)) v \<noteq> []"
proof (induction cw arcs D rule: ac3_loop_induct)
  case (Nil cw D)
  then show ?case by simp
next
  case (error cw x y arcs D e D1)
  from error(1) have "D1 = D" by (cases rule: revise_cases) simp_all
  with error show ?case by simp
next
  case (unrevised cw x y arcs D D1)
  from revise_sets(3)[OF unrevised.hyps, of v] unrevised.prems(2)
  have "dom_of D1 v \<noteq> []" by auto
  with unrevised show ?case by simp
next
  case (keyerror cw x y arcs D D1 e)
  from revise_Inr_overlap[OF keyerror(1)] obtain ov where ov: "overlaps cw (x, y) = Some ov" ..
  show ?case
  proof (cases ov)
    case None
    with ov keyerror(1) show ?thesis by (simp add: revise_def)
  next
    case (Some ij)
    obtain xi yi where "ij = (xi, yi)" by (cases ij)
    with ov Some have "overlaps cw (x, y) = Some (Some (xi, yi))" by simp
    from revise_spec(4)[OF keyerror(1) this] keyerror(2) show ?thesis by auto
  qed
next
  case (emptied cw x y arcs D D1)
  then show ?case by simp
next
  case (revised cw x y arcs D D1 dx)
  have "dom_of D1 v \<noteq> []"
  proof (cases "v = x")
    case True
    with revised.hyps(2,3) show ?thesis by (simp add: dom_of_getitem)
  next
    case False
    with revise_sets(2)[OF revised.hyps(1)] revised.prems(2) show ?thesis by simp
  qed
  with revised show ?case by simp
qed

text \<open>
  What holds of \<open>ac3\<close>: unless it returns \<open>False\<close>, no domain that was non-empty at the
  call is empty afterwards; and a default run that returns \<open>True\<close> on a symmetric overlap
  table leaves every pair of distinct variables arc consistent.
\<close>

lemma ac3_keeps_nonempty:
  "fst (ac3 cw arcs D) \<noteq> Inr False \<Longrightarrow> dom_of D v \<noteq> [] \<Longrightarrow>
     dom_of (snd (ac3 cw arcs D)) v \<noteq> []"
  unfolding ac3_def by (rule ac3_loop_keeps_nonempty)

lemma ac3_default_arc_consistent:
  "symmetric_overlaps cw \<Longrightarrow> ac3 cw None D = (Inr True, D') \<Longrightarrow> arcs_consistent cw D'"
  unfolding ac3_def by (auto intro: ac3_loop_consistent pending_all_arcs)

section \<open>The search\<close>

lemma backtrack_Suc_cases [consumes 1, case_names complete select_error order_error
    del_error exhausted passed]:
  assumes "backtrack (Suc n) cw A D = r"
  obtains
    (complete) "assignment_complete cw A" "r = (Inr (Some A), A, D)"
  | (select_error) e where "\<not> assignment_complete cw A"
      "select_unassigned_variable cw A D = Inl e" "r = (Inl e, A, D)"
  | (order_error) var e where "\<not> assignment_complete cw A"
      "select_unassigned_variable cw A D = Inr var"
      "order_domain_values cw var A D = Inl e" "r = (Inl e, A, D)"
  | (del_error) var vals A' D' e where "\<not> assignment_complete cw A"
      "select_unassigned_variable cw A D = Inr var"
      "order_domain_values cw var A D = Inr vals"
      "try_values n cw var vals A D = (Inr None, A', D')"
      "delitem A' var = Inl e" "r = (Inl e, A', D')"
  | (exhausted) var vals A' D' A'' where "\<not> assignment_complete cw A"
      "select_unassigned_variable cw A D = Inr var"
      "order_domain_values cw var A D = Inr vals"
      "try_values n cw var vals A D = (Inr None, A', D')"
      "delitem A' var = Inr A''" "r = (Inr None, A'', D')"
  | (passed) var vals where "\<not> assignment_complete cw A"
      "select_unassigned_variable cw A D = Inr var"
      "order_domain_values cw var A D = Inr vals"
      "try_values n cw var vals A D = r" "fst r \<noteq> Inr None"
proof (cases "assignment_complete cw A")
  case True
  with assms complete show ?thesis by simp
next
  case nc: False
  show ?thesis
  proof (cases "select_unassigned_variable cw A D")
    case (Inl e)
    with assms nc select_error show ?thesis by simp
  next
    case sel: (Inr var)
    show ?thesis
    proof (cases "order_domain_values cw var A D")
      case (Inl e)
      with assms nc sel order_error show ?thesis by simp
    next
      case ord: (Inr vals)
      obtain res A' D' where tv: "try_values n cw var vals A D = (res, A', D')"
        by (cases "try_values n cw var vals A D")
      show ?thesis
      proof (cases "res = Inr None")
        case True
        show ?thesis
        proof (cases "delitem A' var")
          case (Inl e)
          with assms nc sel ord tv True have "r = (Inl e, A', D')" by simp
          with nc sel ord tv True Inl del_error show ?thesis by simp
        next
          case (Inr A'')
          with assms nc sel ord tv True have "r = (Inr None, A'', D')" by simp
          with nc sel ord tv True Inr exhausted show ?thesis by simp
        qed
      next
        case False
        with assms nc sel ord tv have "r = (res, A', D')"
          by (auto split: sum.splits option.splits)
        with nc sel ord tv False passed show ?thesis by simp
      qed
    qed
  qed
qed

lemma try_values_Cons_cases [consumes 1, case_names consistent_error inconsistent ac3_error
    failed passed]:
  assumes "try_values n cw var (v # vals) A D = r"
  obtains
    (consistent_error) e where "consistent cw (AList.update var v A) = Inl e"
      "r = (Inl e, AList.update var v A, D)"
  | (inconsistent) "consistent cw (AList.update var v A) = Inr False"
      "r = try_values n cw var vals (AList.update var v A) D"
  | (ac3_error) e D2 where "consistent cw (AList.update var v A) = Inr True"
      "ac3 cw (Some (assigned_arcs cw (AList.update var v A))) (AList.update var [v] D) = (Inl e, D2)"
      "r = (Inl e, AList.update var v A, D2)"
  | (failed) b D2 A2 D3 where "consistent cw (AList.update var v A) = Inr True"
      "ac3 cw (Some (assigned_arcs cw (AList.update var v A))) (AList.update var [v] D) = (Inr b, D2)"
      "backtrack n cw (AList.update var v A) D2 = (Inr None, A2, D3)"
      "r = try_values n cw var vals A2 D"
  | (passed) b D2 where "consistent cw (AList.update var v A) = Inr True"
      "ac3 cw (Some (assigned_arcs cw (AList.update var v A))) (AList.update var [v] D) = (Inr b, D2)"
      "backtrack n cw (AList.update var v A) D2 = r" "fst r \<noteq> Inr None"
proof (cases "consistent cw (AList.update var v A)")
  case (Inl e)
  with assms consistent_error show ?thesis by simp
next
  case (Inr c)
  show ?thesis
  proof (cases c)
    case False
    with assms Inr inconsistent show ?thesis by simp
  next
    case True
    with Inr have con: "consistent cw (AList.update var v A) = Inr True" by simp
    obtain ra D2 where
      ac: "ac3 cw (Some (assigned_arcs cw (AList.update var v A))) (AList.update var [v] D) = (ra, D2)"
      by (cases "ac3 cw (Some (assigned_arcs cw (AList.update var v A))) (AList.update var [v] D)")
    show ?thesis
    proof (cases ra)
      case (Inl e)
      with assms con ac ac3_error show ?thesis by simp
    next
      case rb: (Inr b)
      obtain res A2 D3 where bt: "backtrack n cw (AList.update var v A) D2 = (res, A2, D3)"
        by (cases "backtrack n cw (AList.update var v A) D2")
      show ?thesis
      proof (cases "res = Inr None")
        case True
        with assms con ac rb bt have "r = try_values n cw var vals A2 D" by simp
        with con ac rb bt True failed show ?thesis by simp
      next
        case False
        with assms con ac rb bt have "r = (res, A2, D3)"
          by (auto split: sum.splits option.splits)
        with con ac rb bt False passed show ?thesis by simp
      qed
    qed
  qed
qed

lemma consistent_inner_True:
  "consistent_inner cw A x ys = Inr True \<Longrightarrow> y \<in> set ys \<Longrightarrow> x \<noteq> y \<Longrightarrow>
     overlaps cw (x, y) = Some (Some (i, j)) \<Longrightarrow>
     \<exists>wx wy. map_of A x = Some wx \<and> map_of A y = Some wy \<and> agree wx i wy j"
proof (induction ys)
  case Nil
  then show ?case by simp
next
  case (Cons z ys)
  show ?case
  proof (cases "z = y")
    case True
    with Cons.prems show ?thesis
      by (auto simp: getitem_def agree_def split: option.splits if_splits)
  next
    case False
    with Cons.prems have "y \<in> set ys" by simp
    moreover from Cons.prems(1) have "consistent_inner cw A x ys = Inr True"
      by (auto split: if_splits option.splits sum.splits prod.splits)
    ultimately show ?thesis using Cons.IH Cons.prems(3,4) by blast
  qed
qed

lemma consistent_outer_True:
  "consistent_outer cw A xs = Inr True \<Longrightarrow> x \<in> set xs \<Longrightarrow>
     (\<exists>wx. map_of A x = Some wx \<and> var_length x = length wx) \<and>
     consistent_inner cw A x (map fst A) = Inr True"
proof (induction xs)
  case Nil
  then show ?case by simp
next
  case (Cons z xs)
  from Cons.prems(1) obtain wz where wz: "map_of A z = Some wz" "var_length z = length wz"
    and inner: "consistent_inner cw A z (map fst A) = Inr True"
    and rest: "consistent_outer cw A xs = Inr True"
    by (auto simp: getitem_def split: option.splits if_splits sum.splits bool.splits)
  show ?case
  proof (cases "x = z")
    case True
    with wz inner show ?thesis by simp
  next
    case False
    with Cons.prems(2) have "x \<in> set xs" by simp
    with Cons.IH rest show ?thesis by blast
  qed
qed

lemma map_of_Some_key: "map_of A x = Some w \<Longrightarrow> x \<in> set (map fst A)"
  by (metis map_of_eq_None_iff option.distinct(1) set_map)

lemma distinct_values:
  assumes "distinct (map snd A)" "map_of A x = Some wx" "map_of A y = Some wy" "x \<noteq> y"
  shows "wx \<noteq> wy"
proof
  assume eq: "wx = wy"
  from assms(2,3) have "(x, wx) \<in> set A" "(y, wy) \<in> set A" by (auto dest: map_of_SomeD)
  moreover from assms(1) have "inj_on snd (set A)" by (simp add: distinct_map)
  ultimately have "(x, wx) = (y, wy)"
    using eq inj_onD[of snd "set A" "(x, wx)" "(y, wy)"] by simp
  with assms(4) show False by simp
qed

lemma consistent_valid:
  assumes "consistent cw A = Inr True"
  shows "assignment_valid cw A"
proof -
  from assms have len: "length A = length (remdups (map snd A))"
    and outer: "consistent_outer cw A (map fst A) = Inr True"
    by (auto simp: consistent_def split: if_splits)
  from len have "length (remdups (map snd A)) = length (map snd A)" by simp
  then have dist: "distinct (map snd A)"
    by (simp only: length_remdups_eq remdups_id_iff_distinct)
  show ?thesis
    unfolding assignment_valid_def
  proof (intro conjI allI impI)
    fix x y wx wy
    assume "x \<noteq> y \<and> map_of A x = Some wx \<and> map_of A y = Some wy"
    with dist show "wx \<noteq> wy" by (auto dest: distinct_values)
  next
    fix x wx
    assume m: "map_of A x = Some wx"
    then have "x \<in> set (map fst A)" by (rule map_of_Some_key)
    from consistent_outer_True[OF outer this] m show "length wx = var_length x" by auto
  next
    fix x y wx wy i j
    assume a: "x \<noteq> y \<and> map_of A x = Some wx \<and> map_of A y = Some wy \<and>
      overlaps cw (x, y) = Some (Some (i, j))"
    then have mx: "map_of A x = Some wx" and my: "map_of A y = Some wy" by simp_all
    have kx: "x \<in> set (map fst A)" using mx by (rule map_of_Some_key)
    have ky: "y \<in> set (map fst A)" using my by (rule map_of_Some_key)
    from consistent_outer_True[OF outer kx]
    have "consistent_inner cw A x (map fst A) = Inr True" by simp
    from consistent_inner_True[OF this ky] a show "agree wx i wy j" by auto
  qed
qed

lemma empty_valid: "assignment_valid cw []"
  by (simp add: assignment_valid_def)

lemma found_is_valid:
  "(assignment_valid cw A \<longrightarrow> backtrack n cw A D = (Inr (Some a), A', D') \<longrightarrow>
      assignment_complete cw a \<and> assignment_valid cw a) \<and>
   (try_values n cw var vals A D = (Inr (Some a), A', D') \<longrightarrow>
      assignment_complete cw a \<and> assignment_valid cw a)"
proof (induction n arbitrary: A D a A' D' var vals)
  case 0
  have "try_values 0 cw var vals A D = (Inr (Some a), A', D') \<longrightarrow>
      assignment_complete cw a \<and> assignment_valid cw a"
  proof (induction vals arbitrary: A D)
    case Nil
    show ?case by simp
  next
    case (Cons v vals)
    show ?case
    proof
      assume "try_values 0 cw var (v # vals) A D = (Inr (Some a), A', D')"
      then show "assignment_complete cw a \<and> assignment_valid cw a"
      proof (cases rule: try_values_Cons_cases)
        case (inconsistent)
        with Cons.IH show ?thesis by simp
      next
        case (failed b D2 A2 D3)
        with Cons.IH show ?thesis by simp
      next
        case (passed b D2)
        then show ?thesis by simp
      qed simp_all
    qed
  qed
  then show ?case by simp
next
  case (Suc n)
  have bt: "\<And>A D a A' D'. assignment_valid cw A \<Longrightarrow> backtrack n cw A D = (Inr (Some a), A', D') \<Longrightarrow>
      assignment_complete cw a \<and> assignment_valid cw a"
    using Suc.IH by blast
  have tv: "\<And>var vals A D a A' D'. try_values n cw var vals A D = (Inr (Some a), A', D') \<Longrightarrow>
      assignment_complete cw a \<and> assignment_valid cw a"
    using Suc.IH by blast
  have step: "\<And>A D a A' D'. assignment_valid cw A \<Longrightarrow>
      backtrack (Suc n) cw A D = (Inr (Some a), A', D') \<Longrightarrow>
      assignment_complete cw a \<and> assignment_valid cw a"
  proof -
    fix A D a A' D'
    assume valid: "assignment_valid cw A"
      and "backtrack (Suc n) cw A D = (Inr (Some a), A', D')"
    from this(2) show "assignment_complete cw a \<and> assignment_valid cw a"
    proof (cases rule: backtrack_Suc_cases)
      case complete
      with valid show ?thesis by simp
    next
      case (passed var vals)
      with tv show ?thesis by blast
    qed simp_all
  qed
  have "try_values (Suc n) cw var vals A D = (Inr (Some a), A', D') \<longrightarrow>
      assignment_complete cw a \<and> assignment_valid cw a"
  proof (induction vals arbitrary: A D)
    case Nil
    show ?case by simp
  next
    case (Cons v vals)
    show ?case
    proof
      assume "try_values (Suc n) cw var (v # vals) A D = (Inr (Some a), A', D')"
      then show "assignment_complete cw a \<and> assignment_valid cw a"
      proof (cases rule: try_values_Cons_cases)
        case (inconsistent)
        with Cons.IH show ?thesis by simp
      next
        case (failed b D2 A2 D3)
        with Cons.IH show ?thesis by simp
      next
        case (passed b D2)
        from consistent_valid[OF passed(1)] passed(3) step show ?thesis by blast
      qed simp_all
    qed
  qed
  with step show ?case by blast
qed

lemma domain_sizes_length: "domain_sizes D vars = Inr ns \<Longrightarrow> length ns = length vars"
  by (induction vars arbitrary: ns) (auto split: sum.splits)

lemma filter_Cons_mem: "filter P xs = v # rest \<Longrightarrow> v \<in> set xs"
  by (metis filter_is_subset list.set_intros(1) subsetD)

lemma map_Cons_mem: "map f ys = v # rest \<Longrightarrow> v \<in> f ` set ys"
  by (metis list.set_intros(1) set_map)

lemma select_unassigned_variable_unassigned:
  assumes "select_unassigned_variable cw A D = Inr var"
  shows "var \<in> set (variables cw) \<and> var \<notin> set (map fst A)"
proof -
  let ?U = "[v \<leftarrow> variables cw. v \<notin> set (map fst A)]"
  from assms obtain sizes where "domain_sizes D ?U = Inr sizes"
    by (auto simp: select_unassigned_variable_def Let_def split: sum.splits)
  with assms obtain m where "py_min sizes = Inr m"
    by (auto simp: select_unassigned_variable_def Let_def split: sum.splits)
  let ?S = "map fst [p \<leftarrow> zip ?U sizes. snd p = m]"
  have sub: "set ?S \<subseteq> set ?U"
  proof
    fix u
    assume "u \<in> set ?S"
    then obtain k where "(u, k) \<in> set (zip ?U sizes)" by auto
    then show "u \<in> set ?U" by (rule set_zip_leftD)
  qed
  from assms \<open>domain_sizes D ?U = Inr sizes\<close> \<open>py_min sizes = Inr m\<close>
  have "var \<in> set ?S"
    apply (simp add: select_unassigned_variable_def Let_def split: if_splits)
     apply (simp_all split: sum.splits list.splits)
     apply (auto dest!: filter_Cons_mem map_Cons_mem)
    done
  with sub show ?thesis by auto
qed

lemma try_values_restores_step:
  assumes bt: "\<And>A D A' D'. backtrack n cw A D = (Inr None, A', D') \<Longrightarrow> A' = A \<and> D' = D"
  shows "try_values n cw var vals A D = (Inr None, A', D') \<Longrightarrow>
     D' = D \<and> A' = (if vals = [] then A else AList.update var (last vals) A)"
proof (induction vals arbitrary: A)
  case Nil
  then show ?case by simp
next
  case (Cons v vals)
  from Cons.prems show ?case
  proof (cases rule: try_values_Cons_cases)
    case inconsistent
    with Cons.prems have "try_values n cw var vals (AList.update var v A) D = (Inr None, A', D')"
      by simp
    from Cons.IH[OF this] show ?thesis by auto
  next
    case (failed b D2 A2 D3)
    from bt[OF failed(3)] have "A2 = AList.update var v A" by simp
    with failed(4) Cons.prems
    have "try_values n cw var vals (AList.update var v A) D = (Inr None, A', D')" by simp
    from Cons.IH[OF this] show ?thesis by auto
  next
    case (passed b D2)
    with Cons.prems show ?thesis by simp
  qed (use Cons.prems in simp_all)
qed

lemma delitem_last_binding:
  "var \<notin> set (map fst A) \<Longrightarrow> delitem (AList.update var w A) var = Inr A"
  by (simp add: delitem_def update_conv' delete_update_same)

lemma backtrack_restores_step:
  assumes tv: "\<And>var vals A D A' D'. try_values n cw var vals A D = (Inr None, A', D') \<Longrightarrow>
     D' = D \<and> A' = (if vals = [] then A else AList.update var (last vals) A)"
  shows "backtrack (Suc n) cw A D = (Inr None, A', D') \<Longrightarrow> A' = A \<and> D' = D"
proof -
  assume "backtrack (Suc n) cw A D = (Inr None, A', D')"
  then show ?thesis
  proof (cases rule: backtrack_Suc_cases)
    case (exhausted var vals A1 D1 A2)
    from select_unassigned_variable_unassigned[OF exhausted(2)]
    have fresh: "var \<notin> set (map fst A)" by simp
    from tv[OF exhausted(4)]
    have D1: "D1 = D" and A1: "A1 = (if vals = [] then A else AList.update var (last vals) A)"
      by simp_all
    have "vals \<noteq> []"
    proof
      assume "vals = []"
      with A1 have "A1 = A" by simp
      moreover from fresh have "map_of A var = None"
        by (simp add: map_of_eq_None_iff)
      ultimately show False using exhausted(5) by (simp add: delitem_def)
    qed
    with A1 have "A1 = AList.update var (last vals) A" by simp
    with exhausted(5) delitem_last_binding[OF fresh] have "A2 = A" by simp
    with exhausted(6) D1 show ?thesis by simp
  qed simp_all
qed

lemma failure_restores:
  "(backtrack n cw A D = (Inr None, A', D') \<longrightarrow> A' = A \<and> D' = D) \<and>
   (try_values n cw var vals A D = (Inr None, A', D') \<longrightarrow>
      D' = D \<and> A' = (if vals = [] then A else AList.update var (last vals) A))"
proof (induction n arbitrary: A D A' D' var vals)
  case 0
  have "\<And>A D A' D'. backtrack 0 cw A D = (Inr None, A', D') \<Longrightarrow> A' = A \<and> D' = D"
    by simp
  from try_values_restores_step[of 0 cw, OF this] show ?case by simp
next
  case (Suc n)
  have tv: "\<And>var vals A D A' D'. try_values n cw var vals A D = (Inr None, A', D') \<Longrightarrow>
     D' = D \<and> A' = (if vals = [] then A else AList.update var (last vals) A)"
    using Suc.IH by blast
  have bt: "\<And>A D A' D'. backtrack (Suc n) cw A D = (Inr None, A', D') \<Longrightarrow> A' = A \<and> D' = D"
    by (rule backtrack_restores_step[OF tv])
  from bt try_values_restores_step[of "Suc n" cw, OF bt] show ?case by blast
qed

lemma backtrack_restores:
  "backtrack n cw A D = (Inr None, A', D') \<Longrightarrow> A' = A \<and> D' = D"
  using failure_restores by blast

lemma try_values_restores:
  "try_values n cw var vals A D = (Inr None, A', D') \<Longrightarrow>
     D' = D \<and> A' = (if vals = [] then A else AList.update var (last vals) A)"
  using failure_restores by blast

text \<open>
  A branch for the value \<open>v\<close> after which the loop goes on (\<open>consistent\<close> rejected the
  binding, or the recursive call returned \<open>None\<close>) leaves \<open>self.domains\<close> as it was before
  the binding.
\<close>

lemma failed_branch_restores:
  assumes "try_values n cw var [v] A D = (Inr None, A1, D1)"
  shows "D1 = D \<and> A1 = AList.update var v A \<and>
         try_values n cw var (v # vals) A D = try_values n cw var vals A1 D"
proof -
  from try_values_restores[OF assms] have D1: "D1 = D" and A1: "A1 = AList.update var v A"
    by simp_all
  from assms have "try_values n cw var (v # vals) A D = try_values n cw var vals A1 D"
  proof (cases rule: try_values_Cons_cases)
    case inconsistent
    with A1 show ?thesis by simp
  next
    case (failed b D2 A2 D3)
    from backtrack_restores[OF failed(3)] A1 have "A2 = A1" by simp
    with failed(1,2,3) show ?thesis by simp
  next
    case (passed b D2)
    with assms show ?thesis by simp
  qed simp_all
  with D1 A1 show ?thesis by simp
qed

section \<open>The value ordering\<close>

lemma ruled_out_values_counters_length:
  "ruled_out_values_counters cw D A var ds = Inr cs \<Longrightarrow> length cs = length ds"
  by (induction ds arbitrary: cs) (auto split: sum.splits)

lemma mset_sorted_reverse: "mset (sorted_reverse xs) = mset xs"
  by (simp add: sorted_reverse_def)

lemma order_domain_values_mset:
  assumes "order_domain_values cw var A D = Inr vals"
  shows "\<exists>ds. map_of D var = Some ds \<and> mset vals = mset ds"
proof -
  from assms obtain ds cs where ds: "map_of D var = Some ds"
    and cs: "ruled_out_values_counters cw D A var ds = Inr cs"
    and vals: "vals = map snd (sorted_reverse (zip cs ds))"
    by (auto simp: order_domain_values_def getitem_def split: option.splits sum.splits)
  from ruled_out_values_counters_length[OF cs] have len: "length cs = length ds" .
  have "mset vals = image_mset snd (mset (sorted_reverse (zip cs ds)))"
    by (simp add: vals)
  also have "\<dots> = image_mset snd (mset (zip cs ds))"
    by (simp only: mset_sorted_reverse)
  also have "\<dots> = mset (map snd (zip cs ds))"
    by simp
  also have "\<dots> = mset ds"
    using len by simp
  finally show ?thesis using ds by blast
qed

section \<open>The recursion limit\<close>

text \<open>
  Each nested call of \<open>backtrack\<close> has one more variable bound, so a limit above the
  number of unbound variables is never reached: raising it further changes nothing.
\<close>

lemma unassigned_after_binding:
  "[u \<leftarrow> variables cw. u \<notin> set (map fst (AList.update var v A))] =
   [u \<leftarrow> variables cw. u \<notin> set (map fst A) \<and> u \<noteq> var]"
  by (rule filter_cong) (auto simp: dom_update)

lemma try_values_fuel_step:
  assumes bt: "\<And>A D. length [u \<leftarrow> variables cw. u \<notin> set (map fst A)] < n \<Longrightarrow>
     backtrack (Suc n) cw A D = backtrack n cw A D"
  shows "length [u \<leftarrow> variables cw. u \<notin> set (map fst A) \<and> u \<noteq> var] < n \<Longrightarrow>
     try_values (Suc n) cw var vals A D = try_values n cw var vals A D"
proof (induction vals arbitrary: A)
  case Nil
  show ?case by simp
next
  case (Cons v vals)
  let ?A1 = "AList.update var v A"
  have less: "length [u \<leftarrow> variables cw. u \<notin> set (map fst ?A1)] < n"
    using Cons.prems by (simp only: unassigned_after_binding)
  have less': "length [u \<leftarrow> variables cw. u \<notin> set (map fst ?A1) \<and> u \<noteq> var] < n"
  proof -
    have "[u \<leftarrow> variables cw. u \<notin> set (map fst ?A1) \<and> u \<noteq> var] =
          [u \<leftarrow> variables cw. u \<notin> set (map fst A) \<and> u \<noteq> var]"
      by (rule filter_cong) (auto simp: dom_update)
    with Cons.prems show ?thesis by simp
  qed
  have next_same: "try_values (Suc n) cw var vals ?A1 D = try_values n cw var vals ?A1 D"
    using Cons.IH[OF less'] .
  obtain r where r: "try_values n cw var (v # vals) A D = r" by simp
  from r show ?case
  proof (cases rule: try_values_Cons_cases)
    case (consistent_error e)
    then show ?thesis by simp
  next
    case inconsistent
    with next_same show ?thesis by simp
  next
    case (ac3_error e D2)
    then show ?thesis by simp
  next
    case (failed b D2 A2 D3)
    from backtrack_restores[OF failed(3)] have A2: "A2 = ?A1" by simp
    from bt[OF less, of D2] failed(3) have "backtrack (Suc n) cw ?A1 D2 = (Inr None, A2, D3)"
      by simp
    with failed A2 next_same show ?thesis by simp
  next
    case (passed b D2)
    from bt[OF less, of D2] passed(3) have big: "backtrack (Suc n) cw ?A1 D2 = r" by simp
    obtain res A2 D3 where rr: "r = (res, A2, D3)" by (cases r)
    with passed(4) have "res \<noteq> Inr None" by simp
    with passed(1,2,3) big rr have "try_values (Suc n) cw var (v # vals) A D = r"
      by (auto split: sum.splits option.splits)
    with r show ?thesis by simp
  qed
qed

lemma backtrack_fuel_step:
  assumes tv: "\<And>var vals A D.
     length [u \<leftarrow> variables cw. u \<notin> set (map fst A) \<and> u \<noteq> var] < n \<Longrightarrow>
     try_values (Suc n) cw var vals A D = try_values n cw var vals A D"
  shows "length [u \<leftarrow> variables cw. u \<notin> set (map fst A)] < Suc n \<Longrightarrow>
     backtrack (Suc (Suc n)) cw A D = backtrack (Suc n) cw A D"
proof -
  assume less: "length [u \<leftarrow> variables cw. u \<notin> set (map fst A)] < Suc n"
  obtain r where r: "backtrack (Suc n) cw A D = r" by simp
  have same: "\<And>var vals. select_unassigned_variable cw A D = Inr var \<Longrightarrow>
     try_values (Suc n) cw var vals A D = try_values n cw var vals A D"
  proof -
    fix var vals
    assume "select_unassigned_variable cw A D = Inr var"
    from select_unassigned_variable_unassigned[OF this]
    have "var \<in> set [u \<leftarrow> variables cw. u \<notin> set (map fst A)]" by simp
    then have "length [u \<leftarrow> [u \<leftarrow> variables cw. u \<notin> set (map fst A)]. u \<noteq> var] <
        length [u \<leftarrow> variables cw. u \<notin> set (map fst A)]"
      by (intro length_filter_less) auto
    with less have "length [u \<leftarrow> variables cw. u \<notin> set (map fst A) \<and> u \<noteq> var] < n"
      by simp
    then show "try_values (Suc n) cw var vals A D = try_values n cw var vals A D"
      by (rule tv)
  qed
  from r show ?thesis
  proof (cases rule: backtrack_Suc_cases)
    case complete
    then show ?thesis by simp
  next
    case (select_error e)
    then show ?thesis by simp
  next
    case (order_error var e)
    then show ?thesis by simp
  next
    case (del_error var vals A' D' e)
    with same[OF del_error(2), of vals] show ?thesis by simp
  next
    case (exhausted var vals A' D' A'')
    with same[OF exhausted(2), of vals] show ?thesis by simp
  next
    case (passed var vals)
    with same[OF passed(2), of vals] r show ?thesis by simp
  qed
qed

lemma fuel_is_enough:
  "(length [u \<leftarrow> variables cw. u \<notin> set (map fst A)] < n \<longrightarrow>
      backtrack (Suc n) cw A D = backtrack n cw A D) \<and>
   (length [u \<leftarrow> variables cw. u \<notin> set (map fst A) \<and> u \<noteq> var] < n \<longrightarrow>
      try_values (Suc n) cw var vals A D = try_values n cw var vals A D)"
proof (induction n arbitrary: A D var vals)
  case 0
  show ?case by simp
next
  case (Suc n)
  have tv: "\<And>var vals A D.
     length [u \<leftarrow> variables cw. u \<notin> set (map fst A) \<and> u \<noteq> var] < n \<Longrightarrow>
     try_values (Suc n) cw var vals A D = try_values n cw var vals A D"
    using Suc.IH by blast
  have bt: "\<And>A D. length [u \<leftarrow> variables cw. u \<notin> set (map fst A)] < Suc n \<Longrightarrow>
     backtrack (Suc (Suc n)) cw A D = backtrack (Suc n) cw A D"
    by (rule backtrack_fuel_step[OF tv])
  from bt try_values_fuel_step[of cw "Suc n", OF bt] show ?case by blast
qed

lemma backtrack_more_fuel:
  "length [u \<leftarrow> variables cw. u \<notin> set (map fst A)] < n \<Longrightarrow>
     backtrack (n + k) cw A D = backtrack n cw A D"
proof (induction k)
  case 0
  show ?case by simp
next
  case (Suc k)
  then have "length [u \<leftarrow> variables cw. u \<notin> set (map fst A)] < n + k" by simp
  with fuel_is_enough[where cw = cw and A = A and n = "n + k" and D = D] have "backtrack (Suc (n + k)) cw A D = backtrack (n + k) cw A D"
    by blast
  with Suc show ?case by simp
qed

lemma solve_more_fuel:
  "length (variables cw) < n \<Longrightarrow> solve (n + k) cw D = solve n cw D"
proof -
  assume "length (variables cw) < n"
  then have "length [u \<leftarrow> variables cw. u \<notin> set (map fst ([] :: assignment))] < n" by simp
  from backtrack_more_fuel[OF this] show ?thesis
    by (simp add: solve_def split: prod.splits sum.splits)
qed

section \<open>The search only narrows the domains\<close>

lemma ac3_shrinks: "domains_le (snd (ac3 cw arcs D)) D"
  by (simp add: ac3_def ac3_loop_shrinks)

lemma try_values_shrinks_step:
  assumes bt: "\<And>A D. domains_le (snd (snd (backtrack n cw A D))) D"
    and dv: "map_of D var = Some ws"
  shows "set vals \<subseteq> set ws \<Longrightarrow> domains_le (snd (snd (try_values n cw var vals A D))) D"
proof (induction vals arbitrary: A)
  case Nil
  show ?case by (simp add: domains_le_refl)
next
  case (Cons v vals)
  let ?A1 = "AList.update var v A"
  let ?D1 = "AList.update var [v] D"
  from Cons.prems have rest: "set vals \<subseteq> set ws" and v: "set [v] \<subseteq> set ws" by simp_all
  from dv v have narrow: "domains_le ?D1 D" by (rule domains_le_update)
  obtain r where r: "try_values n cw var (v # vals) A D = r" by simp
  from r have "domains_le (snd (snd r)) D"
  proof (cases rule: try_values_Cons_cases)
    case (consistent_error e)
    then show ?thesis by (simp add: domains_le_refl)
  next
    case inconsistent
    with Cons.IH[OF rest] show ?thesis by simp
  next
    case (ac3_error e D2)
    from ac3_shrinks[of cw "Some (assigned_arcs cw ?A1)" ?D1] ac3_error(2)
    have "domains_le D2 ?D1" by simp
    then have "domains_le D2 D" using narrow by (rule domains_le_trans)
    with ac3_error(3) show ?thesis by simp
  next
    case (failed b D2 A2 D3)
    with Cons.IH[OF rest] show ?thesis by simp
  next
    case (passed b D2)
    from ac3_shrinks[of cw "Some (assigned_arcs cw ?A1)" ?D1] passed(2)
    have "domains_le D2 ?D1" by simp
    then have "domains_le D2 D" using narrow by (rule domains_le_trans)
    with bt[of ?A1 D2] passed(3) show ?thesis by (auto intro: domains_le_trans)
  qed
  with r show ?case by simp
qed

lemma backtrack_shrinks_step:
  assumes tv: "\<And>var vals ws A D. map_of D var = Some ws \<Longrightarrow> set vals \<subseteq> set ws \<Longrightarrow>
     domains_le (snd (snd (try_values n cw var vals A D))) D"
  shows "domains_le (snd (snd (backtrack (Suc n) cw A D))) D"
proof -
  obtain r where r: "backtrack (Suc n) cw A D = r" by simp
  have loop: "\<And>var vals. order_domain_values cw var A D = Inr vals \<Longrightarrow>
     domains_le (snd (snd (try_values n cw var vals A D))) D"
  proof -
    fix var vals
    assume "order_domain_values cw var A D = Inr vals"
    from order_domain_values_mset[OF this] obtain ds where ds: "map_of D var = Some ds"
      and "mset vals = mset ds" by blast
    then have "set vals \<subseteq> set ds" by (metis mset_eq_setD order_refl)
    with ds show "domains_le (snd (snd (try_values n cw var vals A D))) D" by (rule tv)
  qed
  from r have "domains_le (snd (snd r)) D"
  proof (cases rule: backtrack_Suc_cases)
    case complete
    then show ?thesis by (simp add: domains_le_refl)
  next
    case (select_error e)
    then show ?thesis by (simp add: domains_le_refl)
  next
    case (order_error var e)
    then show ?thesis by (simp add: domains_le_refl)
  next
    case (del_error var vals A' D' e)
    with loop[OF del_error(3)] show ?thesis by simp
  next
    case (exhausted var vals A' D' A'')
    with loop[OF exhausted(3)] show ?thesis by simp
  next
    case (passed var vals)
    with loop[OF passed(3)] show ?thesis by simp
  qed
  with r show ?thesis by simp
qed

lemma search_shrinks:
  "domains_le (snd (snd (backtrack n cw A D))) D \<and>
   (map_of D var = Some ws \<longrightarrow> set vals \<subseteq> set ws \<longrightarrow>
      domains_le (snd (snd (try_values n cw var vals A D))) D)"
proof (induction n arbitrary: A D var vals ws)
  case 0
  have bt: "\<And>A D. domains_le (snd (snd (backtrack 0 cw A D))) D"
    by (simp add: domains_le_refl)
  from bt try_values_shrinks_step[of 0 cw, OF bt] show ?case by blast
next
  case (Suc n)
  have tv: "\<And>var vals ws A D. map_of D var = Some ws \<Longrightarrow> set vals \<subseteq> set ws \<Longrightarrow>
     domains_le (snd (snd (try_values n cw var vals A D))) D"
    using Suc.IH by blast
  have bt: "\<And>A D. domains_le (snd (snd (backtrack (Suc n) cw A D))) D"
    by (rule backtrack_shrinks_step[OF tv])
  from bt try_values_shrinks_step[of "Suc n" cw, OF bt] show ?case by blast
qed

lemma solve_shrinks: "domains_le (snd (snd (solve n cw D))) D"
proof -
  obtain r1 D1 where e: "enforce_node_consistency cw D = (r1, D1)"
    by (cases "enforce_node_consistency cw D")
  with enforce_loop_shrinks[of "variables cw" D] have le1: "domains_le D1 D"
    by (simp add: enforce_node_consistency_def)
  obtain r2 D2 where a: "ac3 cw None D1 = (r2, D2)" by (cases "ac3 cw None D1")
  with ac3_shrinks[of cw None D1] have "domains_le D2 D1" by simp
  then have le2: "domains_le D2 D" using le1 by (rule domains_le_trans)
  from search_shrinks[of n cw "[]" D2] have "domains_le (snd (snd (backtrack n cw [] D2))) D2"
    by blast
  then have "domains_le (snd (snd (backtrack n cw [] D2))) D" using le2 by (rule domains_le_trans)
  with e a le1 le2 show ?thesis
    by (cases r1; cases r2) (simp_all add: solve_def)
qed

section \<open>The claims\<close>

text \<open>
  C8. For every call \<open>revise(x, y)\<close>, whatever it returns or raises, the domain of every
  variable other than \<open>x\<close> is left as it was (so the domain of \<open>y\<close> is read and never
  written); and when the overlap table records no overlap for \<open>(x, y)\<close>, the whole of
  \<open>self.domains\<close> is left as it was and \<open>revise\<close> returns \<open>False\<close>.
\<close>

theorem revise_frame:
  "(\<forall>v. v \<noteq> x \<longrightarrow> map_of (snd (revise cw x y D)) v = map_of D v) \<and>
   (overlaps cw (x, y) = Some None \<longrightarrow> revise cw x y D = (Inr False, D))"
proof
  obtain r D' where eq: "revise cw x y D = (r, D')" by (cases "revise cw x y D")
  from eq have "\<forall>v. v \<noteq> x \<longrightarrow> map_of D' v = map_of D v"
    by (cases rule: revise_cases) (auto simp: update_conv')
  then show "\<forall>v. v \<noteq> x \<longrightarrow> map_of (snd (revise cw x y D)) v = map_of D v"
    by (simp add: eq)
next
  show "overlaps cw (x, y) = Some None \<longrightarrow> revise cw x y D = (Inr False, D)"
    by (simp add: revise_def)
qed

theorem revise_frame_witness:
  "slot_Y \<noteq> slot_X \<and>
   map_of (snd (revise two_slots slot_X slot_Y (init_domains two_slots))) slot_Y =
     map_of (init_domains two_slots) slot_Y \<and>
   overlaps parallel_slots (slot_X, slot_Z) = Some None \<and>
   revise parallel_slots slot_X slot_Z (init_domains parallel_slots) =
     (Inr False, init_domains parallel_slots)"
proof -
  have ne: "slot_Y \<noteq> slot_X"
    by (simp add: slot_X_def slot_Y_def Variable_def)
  have ov: "overlaps parallel_slots (slot_X, slot_Z) = Some None"
    by (simp add: parallel_slots_def overlap_table_def slot_X_def slot_Z_def Variable_def)
  from revise_frame[where cw = two_slots and x = slot_X and y = slot_Y and D = "init_domains two_slots"] ne
  have "map_of (snd (revise two_slots slot_X slot_Y (init_domains two_slots))) slot_Y =
     map_of (init_domains two_slots) slot_Y"
    by blast
  moreover from revise_frame[where cw = parallel_slots and x = slot_X and y = slot_Z
      and D = "init_domains parallel_slots"] ov
  have "revise parallel_slots slot_X slot_Z (init_domains parallel_slots) =
     (Inr False, init_domains parallel_slots)"
    by blast
  ultimately show ?thesis using ne ov by simp
qed

text \<open>
  C9. Domains only shrink. \<open>enforce_node_consistency\<close>, \<open>revise\<close> and \<open>ac3\<close> (started from
  any list of arcs and any state of \<open>self.domains\<close>, so also the runs inside \<open>backtrack\<close>),
  whatever they return or raise, leave \<open>self.domains\<close> with the same keys and each
  variable's set of words a subset of what it was before the call: none of them puts a
  deleted word back. Inside \<open>backtrack\<close> a word comes back only when the snapshot is
  restored, so a whole call of \<open>backtrack\<close> also ends with every domain a subset of what
  it was at the call.
\<close>

theorem domains_only_shrink:
  "domains_le (snd (enforce_node_consistency cw D)) D \<and>
   domains_le (snd (revise cw x y D)) D \<and>
   domains_le (snd (ac3 cw arcs D)) D \<and>
   domains_le (snd (snd (backtrack n cw A D))) D"
  using search_shrinks[of n cw A D]
  by (simp add: enforce_node_consistency_def enforce_loop_shrinks revise_shrinks ac3_shrinks)

theorem domains_only_shrink_witness:
  "domains_le (snd (enforce_node_consistency ring (init_domains ring))) (init_domains ring) \<and>
   domains_le (snd (revise ring ring_A1 ring_D1 ring_domains)) ring_domains \<and>
   domains_le (snd (ac3 ring None (snd (enforce_node_consistency ring (init_domains ring)))))
     (snd (enforce_node_consistency ring (init_domains ring))) \<and>
   snd (ac3 ring None (snd (enforce_node_consistency ring (init_domains ring)))) = ring_domains \<and>
   domains_le (snd (snd (backtrack 3 tight_corner [] (init_domains tight_corner))))
     (init_domains tight_corner) \<and>
   backtrack 3 tight_corner [] (init_domains tight_corner) =
     (Inr None, [], init_domains tight_corner)"
proof -
  have "snd (ac3 ring None (snd (enforce_node_consistency ring (init_domains ring)))) = ring_domains"
    by code_simp
  moreover have "backtrack 3 tight_corner [] (init_domains tight_corner) =
     (Inr None, [], init_domains tight_corner)"
    by code_simp
  moreover note domains_only_shrink[where cw = ring and D = "init_domains ring"]
    domains_only_shrink[where cw = ring and D = ring_domains and x = ring_A1 and y = ring_D1]
    domains_only_shrink[where cw = ring and arcs = None
      and D = "snd (enforce_node_consistency ring (init_domains ring))"]
    domains_only_shrink[where cw = tight_corner and n = 3 and A = "[]"
      and D = "init_domains tight_corner"]
  ultimately show ?thesis by simp
qed

text \<open>
  C5, on the code. The docstring of \<open>ac3\<close> promises \<open>True\<close> only when no domain is empty
  and \<open>False\<close> when one or more domains end up empty. \<open>ac3\<close> looks at the size of a domain
  only after a revision has removed a word from it, so a domain that is empty when
  \<open>ac3\<close> is called goes unnoticed: for \<open>lonely_slot\<close>, whose only domain is emptied by
  \<open>enforce_node_consistency\<close> inside \<open>solve\<close>, \<open>ac3\<close> returns \<open>True\<close> with that domain empty.
\<close>

theorem ac3_true_with_empty_domain:
  "enforce_node_consistency lonely_slot (init_domains lonely_slot) = (Inr (), [(slot_X, [])]) \<and>
   ac3 lonely_slot None [(slot_X, [])] = (Inr True, [(slot_X, [])]) \<and>
   dom_of [(slot_X, [])] slot_X = []"
  by code_simp

text \<open>
  C10. Whenever \<open>order_domain_values\<close> returns a list, \<open>var\<close> is a key of \<open>self.domains\<close> and
  the list is a permutation of the words of \<open>self.domains[var]\<close>: the same words, each as
  often as in the domain, none added and none dropped. The domain is a set, so each
  word occurs exactly once.
\<close>

theorem order_domain_values_permutation:
  assumes "order_domain_values cw var A D = Inr vals"
  shows "\<exists>ds. map_of D var = Some ds \<and> mset vals = mset ds \<and> (distinct ds \<longrightarrow> distinct vals)"
proof -
  from order_domain_values_mset[OF assms] obtain ds where ds: "map_of D var = Some ds"
    and perm: "mset vals = mset ds" by blast
  from mset_eq_imp_distinct_iff[OF perm] have "distinct ds \<longrightarrow> distinct vals"
    by simp
  with ds perm show ?thesis by blast
qed

theorem order_domain_values_permutation_witness:
  "order_domain_values corner slot_A [] (init_domains corner) =
     Inr [''CZ'', ''CD'', ''AY'', ''AX'', ''AB''] \<and>
   (\<exists>ds. map_of (init_domains corner) slot_A = Some ds \<and>
      mset [''CZ'', ''CD'', ''AY'', ''AX'', ''AB''] = mset ds \<and>
      (distinct ds \<longrightarrow> distinct [''CZ'', ''CD'', ''AY'', ''AX'', ''AB'']))"
proof -
  have run: "order_domain_values corner slot_A [] (init_domains corner) =
     Inr [''CZ'', ''CD'', ''AY'', ''AX'', ''AB'']"
    by code_simp
  from order_domain_values_permutation[OF run] run show ?thesis by simp
qed

text \<open>
  C3, on the code. In \<open>corner\<close> both domains hold the five words. For the across slot, a
  word that starts with \<open>A\<close> rules out 3 words of the down slot (itself and the two words
  that start with \<open>C\<close>) and a word that starts with \<open>C\<close> rules out 4. The docstring of
  \<open>order_domain_values\<close> wants the value that rules out the fewest first, but the list is
  sorted with \<open>reverse=True\<close>: the values that rule out the most come first.
\<close>

theorem order_domain_values_most_constraining_first:
  "ruled_out_values_counters corner (init_domains corner) [] slot_A
     [''AB'', ''CD'', ''AX'', ''AY'', ''CZ''] = Inr [3, 4, 3, 3, 4] \<and>
   order_domain_values corner slot_A [] (init_domains corner) =
     Inr [''CZ'', ''CD'', ''AY'', ''AX'', ''AB'']"
  by code_simp

text \<open>
  C1. Every assignment that \<open>solve\<close> returns, from any state of \<open>self.domains\<close> and with any
  recursion limit, binds every variable of the crossword and satisfies the constraints:
  different variables have different words, each word has the length of its variable,
  and the words of two variables with a defined overlap agree at the overlap indices.
\<close>

theorem solve_returns_valid_assignment:
  assumes "solve n cw D = (Inr (Some a), A', D')"
  shows "assignment_complete cw a \<and> assignment_valid cw a"
proof -
  from assms obtain D2 where "backtrack n cw [] D2 = (Inr (Some a), A', D')"
    by (auto simp: solve_def split: prod.splits sum.splits)
  with found_is_valid[of cw "[]" n D2 a A' D'] empty_valid[of cw] show ?thesis by blast
qed

theorem solve_returns_valid_assignment_witness:
  "solve 3 two_slots (init_domains two_slots) =
     (Inr (Some [(slot_Y, ''tar''), (slot_X, ''cat'')]), [(slot_Y, ''tar''), (slot_X, ''cat'')],
      [(slot_X, [''cat'']), (slot_Y, [''tar''])]) \<and>
   assignment_complete two_slots [(slot_Y, ''tar''), (slot_X, ''cat'')] \<and>
   assignment_valid two_slots [(slot_Y, ''tar''), (slot_X, ''cat'')]"
proof -
  have run: "solve 3 two_slots (init_domains two_slots) =
     (Inr (Some [(slot_Y, ''tar''), (slot_X, ''cat'')]), [(slot_Y, ''tar''), (slot_X, ''cat'')],
      [(slot_X, [''cat'']), (slot_Y, [''tar''])])"
    by code_simp
  from solve_returns_valid_assignment[OF run] run show ?thesis by simp
qed

text \<open>
  C7, on the code. In \<open>ring\<close> the branch that binds \<open>ring_A2\<close> to \<open>AZBZ\<close> passes \<open>consistent\<close>,
  propagation reports infeasibility (\<open>ac3\<close> returns \<open>False\<close>), and the branch does not lead
  to success. The comment in the source says that the domains are restored if a
  solution hasn't been found, and the path on which the recursive call returns \<open>None\<close>
  does restore them. Here the recursive call raises \<open>KeyError\<close> at \<open>del assignment[var]\<close>
  before \<open>self.domains = tmp_domains\<close> is reached, and \<open>self.domains\<close> is left narrowed,
  not as it was before the binding.
\<close>

theorem failed_propagation_leaves_domains_narrowed:
  "consistent ring (AList.update ring_A2 ''AZBZ'' []) = Inr True \<and>
   ac3 ring (Some (assigned_arcs ring (AList.update ring_A2 ''AZBZ'' [])))
     (AList.update ring_A2 [''AZBZ''] ring_domains) = (Inr False, ring_failed_domains) \<and>
   try_values 4 ring ring_A2 [''AZBZ''] [] ring_domains =
     (Inl KeyError, [(ring_A2, ''AZBZ'')], ring_failed_domains) \<and>
   ring_failed_domains \<noteq> ring_domains"
  by code_simp

text \<open>
  C6, as the code has it. In \<open>parallel_slots\<close>, with \<open>slot_X\<close> bound to \<open>cat\<close>, the search
  selects \<open>slot_Z\<close> and tries its only value, which \<open>consistent\<close> rejects. When the loop
  ends \<open>slot_Z\<close> is still bound to that value: the binding is not absent.
\<close>

theorem binding_present_after_loop:
  "select_unassigned_variable parallel_slots [(slot_X, ''cat'')]
     [(slot_X, [''cat'']), (slot_Z, [''cat''])] = Inr slot_Z \<and>
   order_domain_values parallel_slots slot_Z [(slot_X, ''cat'')]
     [(slot_X, [''cat'']), (slot_Z, [''cat''])] = Inr [''cat''] \<and>
   try_values 1 parallel_slots slot_Z [''cat''] [(slot_X, ''cat'')]
     [(slot_X, [''cat'']), (slot_Z, [''cat''])] =
     (Inr None, [(slot_X, ''cat''), (slot_Z, ''cat'')], [(slot_X, [''cat'']), (slot_Z, [''cat''])]) \<and>
   map_of [(slot_X, ''cat''), (slot_Z, ''cat'')] slot_Z = Some ''cat''"
  by code_simp

text \<open>
  C6, amended. On the failure path where at least one value of the selected variable
  \<open>var\<close> was tried and none led to success, \<open>var\<close> is still bound when the loop ends, to
  the last value tried. The final \<open>del assignment[var]\<close> is what undoes the binding: it
  succeeds and leaves the assignment as it was when \<open>backtrack\<close> was called, and
  \<open>backtrack\<close> returns \<open>None\<close> with \<open>self.domains\<close> as it was at the call.
\<close>

theorem del_undoes_last_binding:
  assumes "\<not> assignment_complete cw A"
    and "select_unassigned_variable cw A D = Inr var"
    and "order_domain_values cw var A D = Inr vals"
    and "vals \<noteq> []"
    and "try_values n cw var vals A D = (Inr None, A1, D1)"
  shows "map_of A1 var = Some (last vals) \<and> delitem A1 var = Inr A \<and>
         backtrack (Suc n) cw A D = (Inr None, A, D)"
proof -
  from select_unassigned_variable_unassigned[OF assms(2)]
  have fresh: "var \<notin> set (map fst A)" by simp
  from try_values_restores[OF assms(5)] assms(4)
  have D1: "D1 = D" and A1: "A1 = AList.update var (last vals) A" by simp_all
  from A1 have bound: "map_of A1 var = Some (last vals)" by (simp add: update_conv')
  from A1 delitem_last_binding[OF fresh] have del: "delitem A1 var = Inr A" by simp
  from assms(1,2,3,5) del D1 have "backtrack (Suc n) cw A D = (Inr None, A, D)" by simp
  with bound del show ?thesis by simp
qed

theorem del_undoes_last_binding_witness:
  "\<not> assignment_complete parallel_slots [(slot_X, ''cat'')] \<and>
   select_unassigned_variable parallel_slots [(slot_X, ''cat'')]
     [(slot_X, [''cat'']), (slot_Z, [''cat''])] = Inr slot_Z \<and>
   order_domain_values parallel_slots slot_Z [(slot_X, ''cat'')]
     [(slot_X, [''cat'']), (slot_Z, [''cat''])] = Inr [''cat''] \<and>
   [''cat''] \<noteq> [] \<and>
   try_values 1 parallel_slots slot_Z [''cat''] [(slot_X, ''cat'')]
     [(slot_X, [''cat'']), (slot_Z, [''cat''])] =
     (Inr None, [(slot_X, ''cat''), (slot_Z, ''cat'')], [(slot_X, [''cat'']), (slot_Z, [''cat''])]) \<and>
   map_of [(slot_X, ''cat''), (slot_Z, ''cat'')] slot_Z = Some (last [''cat'']) \<and>
   delitem [(slot_X, ''cat''), (slot_Z, ''cat'')] slot_Z = Inr [(slot_X, ''cat'')] \<and>
   backtrack (Suc 1) parallel_slots [(slot_X, ''cat'')] [(slot_X, [''cat'']), (slot_Z, [''cat''])] =
     (Inr None, [(slot_X, ''cat'')], [(slot_X, [''cat'']), (slot_Z, [''cat''])])"
proof -
  have h1: "\<not> assignment_complete parallel_slots [(slot_X, ''cat'')]"
    by code_simp
  have h2: "select_unassigned_variable parallel_slots [(slot_X, ''cat'')]
     [(slot_X, [''cat'']), (slot_Z, [''cat''])] = Inr slot_Z"
    by code_simp
  have h3: "order_domain_values parallel_slots slot_Z [(slot_X, ''cat'')]
     [(slot_X, [''cat'']), (slot_Z, [''cat''])] = Inr [''cat'']"
    by code_simp
  have h4: "[''cat''] \<noteq> []"
    by simp
  have h5: "try_values 1 parallel_slots slot_Z [''cat''] [(slot_X, ''cat'')]
     [(slot_X, [''cat'']), (slot_Z, [''cat''])] =
     (Inr None, [(slot_X, ''cat''), (slot_Z, ''cat'')], [(slot_X, [''cat'']), (slot_Z, [''cat''])])"
    by code_simp
  from del_undoes_last_binding[OF h1 h2 h3 h4 h5] h1 h2 h3 h4 h5 show ?thesis by blast
qed

text \<open>
  C2, on the code. The vocabulary of \<open>lonely_slot\<close> has no word of length 3, the length
  of its only variable. \<open>enforce_node_consistency\<close> empties the domain, \<open>backtrack\<close>
  selects the variable, the loop over its values has nothing to try, and
  \<open>del assignment[var]\<close> raises \<open>KeyError\<close> for the variable that was never bound:
  \<open>solve\<close> does not return \<open>None\<close>.
\<close>

theorem solve_without_word_of_length_raises:
  "solve (Suc n) lonely_slot (init_domains lonely_slot) = (Inl KeyError, [], [(slot_X, [])])"
proof -
  have pre: "enforce_node_consistency lonely_slot (init_domains lonely_slot) = (Inr (), [(slot_X, [])])"
    "ac3 lonely_slot None [(slot_X, [])] = (Inr True, [(slot_X, [])])"
    by code_simp+
  have sel: "\<not> assignment_complete lonely_slot []"
    "select_unassigned_variable lonely_slot [] [(slot_X, [])] = Inr slot_X"
    "order_domain_values lonely_slot slot_X [] [(slot_X, [])] = Inr []"
    "delitem ([] :: assignment) slot_X = Inl KeyError"
    by code_simp+
  show ?thesis
    by (simp add: solve_def pre sel)
qed

text \<open>
  C4, as the code has it. \<open>backtrack\<close> calls \<open>self.ac3(arcs)\<close> as a statement and recurses
  whatever it returns. For \<open>ring\<close> the search selects \<open>ring_A2\<close> and tries \<open>AZBZ\<close> first; the
  binding is consistent, \<open>ac3\<close> empties the domain of \<open>ring_A1\<close> and returns \<open>False\<close>, and
  the search does recurse: the outcome of the branch, and of \<open>solve\<close>, is the \<open>KeyError\<close>
  that the recursive call raises, not what the loop yields when it moves on to the
  next value \<open>CZDZ\<close>.
\<close>

theorem backtrack_recurses_after_failed_propagation:
  "snd (ac3 ring None (snd (enforce_node_consistency ring (init_domains ring)))) = ring_domains \<and>
   select_unassigned_variable ring [] ring_domains = Inr ring_A2 \<and>
   order_domain_values ring ring_A2 [] ring_domains = Inr [''AZBZ'', ''CZDZ''] \<and>
   consistent ring [(ring_A2, ''AZBZ'')] = Inr True \<and>
   ac3 ring (Some (assigned_arcs ring [(ring_A2, ''AZBZ'')]))
     (AList.update ring_A2 [''AZBZ''] ring_domains) = (Inr False, ring_failed_domains) \<and>
   backtrack 4 ring [(ring_A2, ''AZBZ'')] ring_failed_domains =
     (Inl KeyError, [(ring_A2, ''AZBZ'')], ring_failed_domains) \<and>
   solve 5 ring (init_domains ring) = (Inl KeyError, [(ring_A2, ''AZBZ'')], ring_failed_domains) \<and>
   fst (try_values 4 ring ring_A2 [''CZDZ''] [(ring_A2, ''AZBZ'')] ring_domains) =
     Inr (Some [(ring_A2, ''CZDZ''), (ring_A1, ''EZF''), (ring_D1, ''EZC''), (ring_D2, ''FZD'')])"
  by code_simp

text \<open>
  C4, amended. After a tentative binding has passed \<open>consistent\<close> and the domain has been
  narrowed and propagated, the search recurses on the branch whether \<open>ac3\<close> returned
  \<open>True\<close> or \<open>False\<close>. What the recursive call returns or raises is the outcome of the
  branch, except when it returns \<open>None\<close>: then the snapshot of the domains is restored
  and the loop moves on to the next value, which overwrites the binding.
\<close>

theorem search_recurses_whatever_ac3_reports:
  assumes "consistent cw (AList.update var v A) = Inr True"
    and "ac3 cw (Some (assigned_arcs cw (AList.update var v A))) (AList.update var [v] D) =
           (Inr b, E)"
  shows "try_values n cw var (v # vals) A D =
           (if fst (backtrack n cw (AList.update var v A) E) = Inr None
            then try_values n cw var vals (AList.update var v A) D
            else backtrack n cw (AList.update var v A) E)"
proof -
  obtain res A2 D3 where bt: "backtrack n cw (AList.update var v A) E = (res, A2, D3)"
    by (cases "backtrack n cw (AList.update var v A) E")
  show ?thesis
  proof (cases "res = Inr None")
    case True
    with bt backtrack_restores[of n cw "AList.update var v A" E A2 D3]
    have "A2 = AList.update var v A" by simp
    with assms bt True show ?thesis by simp
  next
    case False
    with assms bt show ?thesis by (auto split: sum.splits option.splits)
  qed
qed

theorem search_recurses_whatever_ac3_reports_witness:
  "consistent ring (AList.update ring_A2 ''AZBZ'' []) = Inr True \<and>
   ac3 ring (Some (assigned_arcs ring (AList.update ring_A2 ''AZBZ'' [])))
     (AList.update ring_A2 [''AZBZ''] ring_domains) = (Inr False, ring_failed_domains) \<and>
   try_values 4 ring ring_A2 [''AZBZ'', ''CZDZ''] [] ring_domains =
     backtrack 4 ring (AList.update ring_A2 ''AZBZ'' []) ring_failed_domains \<and>
   consistent tight_corner (AList.update slot_A ''CD'' []) = Inr True \<and>
   ac3 tight_corner (Some (assigned_arcs tight_corner (AList.update slot_A ''CD'' [])))
     (AList.update slot_A [''CD''] (init_domains tight_corner)) =
     (Inr True, [(slot_A, [''CD'']), (slot_D, [''CD''])]) \<and>
   try_values 2 tight_corner slot_A [''CD'', ''AB''] [] (init_domains tight_corner) =
     try_values 2 tight_corner slot_A [''AB''] (AList.update slot_A ''CD'' [])
       (init_domains tight_corner)"
proof -
  have c1: "consistent ring (AList.update ring_A2 ''AZBZ'' []) = Inr True"
    by code_simp
  have p1: "ac3 ring (Some (assigned_arcs ring (AList.update ring_A2 ''AZBZ'' [])))
     (AList.update ring_A2 [''AZBZ''] ring_domains) = (Inr False, ring_failed_domains)"
    by code_simp
  have r1: "fst (backtrack 4 ring (AList.update ring_A2 ''AZBZ'' []) ring_failed_domains) \<noteq> Inr None"
    by code_simp
  have c2: "consistent tight_corner (AList.update slot_A ''CD'' []) = Inr True"
    by code_simp
  have p2: "ac3 tight_corner (Some (assigned_arcs tight_corner (AList.update slot_A ''CD'' [])))
     (AList.update slot_A [''CD''] (init_domains tight_corner)) =
     (Inr True, [(slot_A, [''CD'']), (slot_D, [''CD''])])"
    by code_simp
  have r2: "fst (backtrack 2 tight_corner (AList.update slot_A ''CD'' [])
     [(slot_A, [''CD'']), (slot_D, [''CD''])]) = Inr None"
    by code_simp
  from search_recurses_whatever_ac3_reports[OF c1 p1, of 4 "[''CZDZ'']"] r1
  have "try_values 4 ring ring_A2 [''AZBZ'', ''CZDZ''] [] ring_domains =
     backtrack 4 ring (AList.update ring_A2 ''AZBZ'' []) ring_failed_domains"
    by simp
  moreover from search_recurses_whatever_ac3_reports[OF c2 p2, of 2 "[''AB'']"] r2
  have "try_values 2 tight_corner slot_A [''CD'', ''AB''] [] (init_domains tight_corner) =
     try_values 2 tight_corner slot_A [''AB''] (AList.update slot_A ''CD'' [])
       (init_domains tight_corner)"
    by simp
  ultimately show ?thesis using c1 p1 c2 p2 by simp
qed

end
